theory Spec2Isabelle
  imports Complex_Main
begin

section \<open>Data model\<close>

text \<open>
  The notebook keeps its state in process-wide globals: \<open>coord\<close> (a list of
  \<open>[x, y]\<close> pairs of floats), \<open>elem\<close> (a list of \<open>[n0, n1, n2]\<close> triples of node
  indices), \<open>emax\<close> (a list of \<open>[start, end]\<close> pairs, both ends inclusive), the
  matrix \<open>A\<close> and the arrays \<open>perm\<close> and \<open>inv_perm\<close>.

  Coordinates and matrix entries are float64 in the source. They are modelled by
  exact rationals: every coordinate produced from the initial mesh is a dyadic
  rational, and node comparison in the source is exact equality. On other
  coordinates a float64 operation may round, and a statement that depends on
  a computed value being zero is made for coordinates on which it does not
  (\<open>exact_coords\<close> below). Node indices
  are natural numbers (negative Python indices are outside the model).
  A global that has not been assigned yet is \<open>None\<close>; reading it raises
  \<open>NameError\<close>.
\<close>

type_synonym node = "rat \<times> rat"
type_synonym element = "nat \<times> nat \<times> nat"
type_synonym level = "nat \<times> nat"
type_synonym matrix = "rat list list"

datatype error = IndexError | ZeroDivisionError | NameError

record mesh =
  coord :: "node list"
  elem :: "element list"
  emax :: "level list"

text \<open>\<open>xs[i]\<close> for a non-negative index: out of range raises \<open>IndexError\<close>.\<close>

definition item :: "'a list \<Rightarrow> nat \<Rightarrow> error + 'a" where
  "item xs i = (if i < length xs then Inr (xs ! i) else Inl IndexError)"

section \<open>Initial mesh\<close>

definition initial :: mesh where
  "initial =
     \<lparr>coord = [(0, 0), (1/2, 0), (1, 0),
               (0, 1/2), (1/2, 1/2), (1, 1/2),
               (0, 1), (1/2, 1), (1, 1)],
      elem = [(0, 4, 3), (4, 0, 1), (1, 5, 4), (5, 1, 2),
              (3, 7, 6), (7, 3, 4), (4, 8, 7), (8, 4, 5)],
      emax = [(0, 7)]\<rparr>"

section \<open>Refinement\<close>

text \<open>\<open>0.5 * (np.array(p) + np.array(q))\<close>\<close>

definition midpoint :: "node \<Rightarrow> node \<Rightarrow> node" where
  "midpoint p q = (1/2 * (fst p + fst q), 1/2 * (snd p + snd q))"

text \<open>
  The \<open>for i, node in enumerate(coord)\<close> search of \<open>elemrefine\<close>: the index of the
  first node whose two coordinates equal those of \<open>n\<close>; \<open>None\<close> is the \<open>else\<close>
  branch of the loop (no \<open>break\<close>).
\<close>

fun find_node :: "node list \<Rightarrow> node \<Rightarrow> nat \<Rightarrow> nat option" where
  "find_node [] n i = None"
| "find_node (node # rest) n i =
     (if fst node = fst n \<and> snd node = snd n then Some i
      else find_node rest n (Suc i))"

text \<open>
  One of the three search-or-append blocks. The state is the node list and the
  counter \<open>nodes_ind\<close>; the result is the index \<open>i1\<close> (\<open>i2\<close>, \<open>i3\<close>) with the
  new state.
\<close>

definition add_node :: "node \<Rightarrow> node list \<times> nat \<Rightarrow> nat \<times> node list \<times> nat" where
  "add_node n st =
     (case st of (cs, nodes_ind) \<Rightarrow>
        (case find_node cs n 0 of
           Some i \<Rightarrow> (i, cs, nodes_ind)
         | None \<Rightarrow> (nodes_ind + 1, cs @ [n], nodes_ind + 1)))"

text \<open>
  \<open>elemrefine(ie)\<close>. The three midpoints are computed first (every index error
  happens before any mutation); \<open>nodes_ind = len(coord) - 1\<close> is read when
  \<open>coord\<close> is known to be non-empty.
\<close>

definition elemrefine :: "nat \<Rightarrow> mesh \<Rightarrow> error + mesh" where
  "elemrefine ie m =
     (case item (elem m) ie of Inl err \<Rightarrow> Inl err | Inr e \<Rightarrow>
      (case e of (e0, e1, e2) \<Rightarrow>
      (case item (coord m) e0 of Inl err \<Rightarrow> Inl err | Inr p0 \<Rightarrow>
      (case item (coord m) e1 of Inl err \<Rightarrow> Inl err | Inr p1 \<Rightarrow>
      (case item (coord m) e2 of Inl err \<Rightarrow> Inl err | Inr p2 \<Rightarrow>
        (let n1 = midpoint p0 p1;
             n2 = midpoint p1 p2;
             n3 = midpoint p0 p2;
             nodes_ind = length (coord m) - 1
         in (case add_node n1 (coord m, nodes_ind) of (i1, c1, k1) \<Rightarrow>
            (case add_node n2 (c1, k1) of (i2, c2, k2) \<Rightarrow>
            (case add_node n3 (c2, k2) of (i3, c3, k3) \<Rightarrow>
               Inr (m\<lparr>coord := c3,
                      elem := elem m @
                        [(e0, i1, i3), (i1, e1, i2), (i3, i2, e2), (i2, i3, i1)]\<rparr>))))))))))"

text \<open>
  The inner loop \<open>for ie in range(...): elemrefine(ie); icnt += 4\<close>; the range is
  evaluated once, before the first iteration.
\<close>

fun refine_elems :: "nat list \<Rightarrow> mesh \<Rightarrow> nat \<Rightarrow> error + mesh \<times> nat" where
  "refine_elems [] m icnt = Inr (m, icnt)"
| "refine_elems (ie # ies) m icnt =
     (case elemrefine ie m of
        Inl err \<Rightarrow> Inl err
      | Inr m' \<Rightarrow> refine_elems ies m' (icnt + 4))"

text \<open>
  The body of \<open>for l in range(lmn, lmx)\<close>. \<open>l\<close> starts at \<open>len(emax)\<close> and every
  iteration appends one level, so \<open>l = 0\<close> only when \<open>emax\<close> is empty, where
  \<open>emax[l-1]\<close> raises \<open>IndexError\<close>.
\<close>

definition refine_level :: "nat \<Rightarrow> mesh \<Rightarrow> error + mesh" where
  "refine_level l m =
     (if l = 0 then Inl IndexError else
      (case item (emax m) (l - 1) of Inl err \<Rightarrow> Inl err | Inr lv \<Rightarrow>
        (let m1 = m\<lparr>emax := emax m @ [(snd lv + 1, 0)]\<rparr>
         in (case refine_elems [fst lv ..< snd lv + 1] m1 0 of
               Inl err \<Rightarrow> Inl err
             | Inr (m2, icnt) \<Rightarrow>
                 (case item (emax m2) l of Inl err \<Rightarrow> Inl err | Inr nl \<Rightarrow>
                    Inr (m2\<lparr>emax := (emax m2)[l := (fst nl, fst nl + icnt - 1)]\<rparr>))))))"

fun refine_loop :: "nat \<Rightarrow> nat \<Rightarrow> mesh \<Rightarrow> error + mesh" where
  "refine_loop l 0 m = Inr m"
| "refine_loop l (Suc n) m =
     (case refine_level l m of
        Inl err \<Rightarrow> Inl err
      | Inr m' \<Rightarrow> refine_loop (Suc l) n m')"

text \<open>\<open>refine(lvl)\<close>: \<open>range(lmn, lmn + lvl)\<close> is empty for \<open>lvl \<le> 0\<close>.\<close>

definition refine :: "int \<Rightarrow> mesh \<Rightarrow> error + mesh" where
  "refine lvl m = (let lmn = length (emax m) in refine_loop lmn (nat lvl) m)"

text \<open>The meshes the program can hold: \<open>initial()\<close> followed by any calls of \<open>refine\<close>.\<close>

inductive reachable :: "mesh \<Rightarrow> bool" where
  reachable_initial: "reachable initial"
| reachable_refine: "reachable m \<Longrightarrow> refine lvl m = Inr m' \<Longrightarrow> reachable m'"

section \<open>Stiffness assembly\<close>

text \<open>
  The globals beside the mesh: the matrix \<open>A\<close> (dense list of rows in the model;
  the source's sparse formats store the same entries) and the two permutation
  arrays.
\<close>

record state =
  mesh :: mesh
  A :: "matrix option"
  perm :: "nat list option"
  inv_perm :: "nat list option"

text \<open>\<open>e[k]\<close> for \<open>k\<close> in \<open>range(3)\<close>.\<close>

definition enode :: "element \<Rightarrow> nat \<Rightarrow> nat" where
  "enode e k = (case e of (e0, e1, e2) \<Rightarrow> if k = 0 then e0 else if k = 1 then e1 else e2)"

text \<open>\<open>area(ie)\<close>: half the cross product of the two edge vectors at vertex 0.\<close>

definition area :: "mesh \<Rightarrow> nat \<Rightarrow> error + rat" where
  "area m ie =
     (case item (elem m) ie of Inl err \<Rightarrow> Inl err | Inr e \<Rightarrow>
      (case item (coord m) (enode e 1) of Inl err \<Rightarrow> Inl err | Inr p1 \<Rightarrow>
      (case item (coord m) (enode e 0) of Inl err \<Rightarrow> Inl err | Inr p0 \<Rightarrow>
      (case item (coord m) (enode e 2) of Inl err \<Rightarrow> Inl err | Inr p2 \<Rightarrow>
        (let a = (fst p1 - fst p0, snd p1 - snd p0);
             b = (fst p2 - fst p0, snd p2 - snd p0)
         in Inr (1/2 * (fst a * snd b - snd a * fst b)))))))"

text \<open>
  \<open>elstiff(ie)\<close>. The coordinates are Python floats, so a division by a zero
  denominator raises \<open>ZeroDivisionError\<close>. The result is the 3x3 array \<open>a\<close>.
\<close>

definition elstiff :: "mesh \<Rightarrow> nat \<Rightarrow> error + rat list list" where
  "elstiff m ie =
     (case item (elem m) ie of Inl err \<Rightarrow> Inl err | Inr e \<Rightarrow>
      (case item (coord m) (enode e 0) of Inl err \<Rightarrow> Inl err | Inr p1 \<Rightarrow>
      (case item (coord m) (enode e 1) of Inl err \<Rightarrow> Inl err | Inr p2 \<Rightarrow>
      (case item (coord m) (enode e 2) of Inl err \<Rightarrow> Inl err | Inr p3 \<Rightarrow>
        (let x1 = fst p1; y1 = snd p1;
             x2 = fst p2; y2 = snd p2;
             x3 = fst p3; y3 = snd p3;
             d1 = (x1-x2)*(y3-y2) - (x3-x2)*(y1-y2);
             d2 = (x2-x3)*(y1-y3) - (x1-x3)*(y2-y3);
             d3 = (x3-x1)*(y2-y1) - (x2-x1)*(y3-y1)
         in if d1 = 0 \<or> d2 = 0 \<or> d3 = 0 then Inl ZeroDivisionError
            else
              (let dxb1 = (y3-y2)/d1; dyb1 = (x3-x2)/d1;
                   dxb2 = (y1-y3)/d2; dyb2 = (x1-x3)/d2;
                   dxb3 = (y2-y1)/d3; dyb3 = (x2-x1)/d3
               in (case area m ie of Inl err \<Rightarrow> Inl err | Inr ar \<Rightarrow>
                    (let a00 = ar * (dxb1*dxb1 + dyb1*dyb1);
                         a11 = ar * (dxb2*dxb2 + dyb2*dyb2);
                         a22 = ar * (dxb3*dxb3 + dyb3*dyb3);
                         a01 = ar * (dxb2*dxb1 + dyb2*dyb1);
                         a02 = ar * (dxb3*dxb1 + dyb3*dyb1);
                         a12 = ar * (dxb3*dxb2 + dyb3*dyb2)
                     in Inr [[a00, a01, a02],
                             [a01, a11, a12],
                             [a02, a12, a22]]))))))))"

text \<open>\<open>sp.lil_matrix((n, n))\<close>\<close>

definition zeros :: "nat \<Rightarrow> matrix" where
  "zeros n = replicate n (replicate n 0)"

text \<open>
  \<open>A[i, j] += v\<close>, \<open>A[i, j] = v\<close>, \<open>A[i, :] = v\<close> and \<open>A[:, j] = v\<close>. In the
  assembly every index used has already been checked against \<open>len(coord)\<close>, the
  dimension of \<open>A\<close>, by \<open>elstiff\<close>.
\<close>

definition mat_add :: "matrix \<Rightarrow> nat \<Rightarrow> nat \<Rightarrow> rat \<Rightarrow> matrix" where
  "mat_add M i j v = M[i := (M ! i)[j := M ! i ! j + v]]"

definition mat_set :: "matrix \<Rightarrow> nat \<Rightarrow> nat \<Rightarrow> rat \<Rightarrow> matrix" where
  "mat_set M i j v = M[i := (M ! i)[j := v]]"

definition set_row :: "matrix \<Rightarrow> nat \<Rightarrow> rat \<Rightarrow> matrix" where
  "set_row M i v = M[i := map (\<lambda>_. v) (M ! i)]"

definition set_col :: "matrix \<Rightarrow> nat \<Rightarrow> rat \<Rightarrow> matrix" where
  "set_col M j v = map (\<lambda>row. row[j := v]) M"

text \<open>The double loop \<open>for k in range(3): for l in range(3): A[e[k], e[l]] += ae[k, l]\<close>.\<close>

definition add_block :: "element \<Rightarrow> rat list list \<Rightarrow> matrix \<Rightarrow> matrix" where
  "add_block e ae M =
     foldl (\<lambda>M' kl. mat_add M' (enode e (fst kl)) (enode e (snd kl)) (ae ! fst kl ! snd kl))
       M (List.product [0..<3] [0..<3])"

text \<open>
  The loop over the elements of the finest level. It returns the exception, if
  one was raised, together with the matrix as the loop left it: \<open>A\<close> is a
  global that the loop updates in place.
\<close>

fun assemble_elems :: "mesh \<Rightarrow> nat \<Rightarrow> element list \<Rightarrow> matrix \<Rightarrow> error option \<times> matrix" where
  "assemble_elems m ie [] M = (None, M)"
| "assemble_elems m ie (e # es) M =
     (case elstiff m ie of
        Inl err \<Rightarrow> (Some err, M)
      | Inr ae \<Rightarrow> assemble_elems m (Suc ie) es (add_block e ae M))"

text \<open>\<open>(0.0 in node) or (1.0 in node)\<close>\<close>

definition on_boundary :: "node \<Rightarrow> bool" where
  "on_boundary node = ((fst node = 0 \<or> snd node = 0) \<or> (fst node = 1 \<or> snd node = 1))"

text \<open>The boundary loop: \<open>A[ie,:] = A[:,ie] = 0; A[ie,ie] = 1\<close> for boundary nodes.\<close>

fun correct_boundary :: "(nat \<times> node) list \<Rightarrow> matrix \<Rightarrow> matrix" where
  "correct_boundary [] M = M"
| "correct_boundary (p # rest) M =
     correct_boundary rest
       (if on_boundary (snd p)
        then mat_set (set_col (set_row M (fst p) 0) (fst p) 0) (fst p) (fst p) 1
        else M)"

text \<open>
  The slice \<open>elem[l[0]:l[1]+1]\<close> of the last level \<open>l = emax[-1]\<close> (slices never
  raise), and the element loop started from the zero matrix: the matrix before
  the boundary correction.
\<close>

definition finest_elems :: "mesh \<Rightarrow> element list" where
  "finest_elems m = drop (fst (last (emax m))) (take (snd (last (emax m)) + 1) (elem m))"

definition assemble :: "mesh \<Rightarrow> error option \<times> matrix" where
  "assemble m =
     assemble_elems m (fst (last (emax m))) (finest_elems m) (zeros (length (coord m)))"

text \<open>
  \<open>assmblstiff()\<close>: the returned state is what the globals hold when the call
  returns or raises. \<open>A\<close> is rebound to the fresh matrix before anything can
  fail.
\<close>

definition assmblstiff :: "state \<Rightarrow> error option \<times> state" where
  "assmblstiff st =
     (let m = mesh st in
      if emax m = [] then (Some IndexError, st\<lparr>A := Some (zeros (length (coord m)))\<rparr>)
      else
        (case assemble m of
           (Some err, M) \<Rightarrow> (Some err, st\<lparr>A := Some M\<rparr>)
         | (None, M) \<Rightarrow>
             (None, st\<lparr>A := Some (correct_boundary (enumerate 0 (coord m)) M)\<rparr>)))"

section \<open>Reordering\<close>

text \<open>\<open>A[p,:][:,p]\<close>: entry \<open>(i, j)\<close> of the result is \<open>A[p[i], p[j]]\<close>.\<close>

definition permute_matrix :: "matrix \<Rightarrow> nat list \<Rightarrow> matrix" where
  "permute_matrix M p = map (\<lambda>i. map (\<lambda>j. M ! i ! j) p) p"

text \<open>
  \<open>np.argsort\<close>: the indices that sort the array. On an array without repeated
  values, which a permutation is, every sorting algorithm returns the same
  result.
\<close>

definition argsort :: "nat list \<Rightarrow> nat list" where
  "argsort p = map snd (sort_key fst (zip p [0..<length p]))"

text \<open>
  \<open>reorder_matrix()\<close>. The ordering comes from scipy's
  \<open>reverse_cuthill_mckee\<close>, which is not part of the repository: it is the
  parameter \<open>rcm\<close>, and returns a permutation of \<open>0..N-1\<close>. The test
  \<open>np.sum(A != A[perm0,:][:,perm0]) == 0\<close> compares the entries of the two
  matrices.
\<close>

definition reorder_matrix :: "(matrix \<Rightarrow> nat list) \<Rightarrow> state \<Rightarrow> error option \<times> state" where
  "reorder_matrix rcm st =
     (case A st of None \<Rightarrow> (Some NameError, st) | Some M \<Rightarrow>
        (let perm0 = rcm M in
         if \<not> list_all (\<lambda>i. i < length M) perm0 then (Some IndexError, st)
         else
           (let Ao = permute_matrix M perm0;
                is_ordered = (M = Ao)
            in if is_ordered then (None, st)
               else (None, st\<lparr>perm := Some perm0, inv_perm := Some (argsort perm0),
                               A := Some Ao\<rparr>))))"

section \<open>Right-hand side and solve\<close>

text \<open>\<open>f()\<close>: the constant source field \<open>-1\<close>, one value per node.\<close>

definition f :: "mesh \<Rightarrow> rat list" where
  "f m = replicate (length (coord m)) (- 1)"

text \<open>
  \<open>b[e] += v\<close> with the index list \<open>e\<close>: numpy reads the three entries, adds \<open>v\<close>
  to each and writes them back, so an index that occurs twice is incremented
  once.
\<close>

definition vec_add3 :: "rat list \<Rightarrow> element \<Rightarrow> rat \<Rightarrow> rat list" where
  "vec_add3 b e v =
     (let v0 = b ! enode e 0 + v; v1 = b ! enode e 1 + v; v2 = b ! enode e 2 + v
      in b[enode e 0 := v0, enode e 1 := v1, enode e 2 := v2])"

fun rhs_elems :: "mesh \<Rightarrow> rat list \<Rightarrow> nat \<Rightarrow> element list \<Rightarrow> rat list \<Rightarrow> error + rat list" where
  "rhs_elems m fv ie [] b = Inr b"
| "rhs_elems m fv ie (e # es) b =
     (case area m ie of Inl err \<Rightarrow> Inl err | Inr ar \<Rightarrow>
      (case item fv (enode e 0) of Inl err \<Rightarrow> Inl err | Inr f0 \<Rightarrow>
      (case item fv (enode e 1) of Inl err \<Rightarrow> Inl err | Inr f1 \<Rightarrow>
      (case item fv (enode e 2) of Inl err \<Rightarrow> Inl err | Inr f2 \<Rightarrow>
         rhs_elems m fv (Suc ie) es (vec_add3 b e (ar * (f0 + f1 + f2) / 3))))))"

fun rhs_boundary :: "(nat \<times> node) list \<Rightarrow> rat list \<Rightarrow> error + rat list" where
  "rhs_boundary [] b = Inr b"
| "rhs_boundary (p # rest) b =
     (if on_boundary (snd p)
      then (if fst p < length b then rhs_boundary rest (b[fst p := 0]) else Inl IndexError)
      else rhs_boundary rest b)"

text \<open>The vector \<open>b\<close> of \<open>rhs(f)\<close> before the final \<open>b[perm]\<close>.\<close>

definition rhs_unpermuted :: "rat list \<Rightarrow> mesh \<Rightarrow> error + rat list" where
  "rhs_unpermuted fv m =
     (if emax m = [] then Inl IndexError
      else
        (case rhs_elems m fv (fst (last (emax m))) (finest_elems m) (replicate (length fv) 0) of
           Inl err \<Rightarrow> Inl err
         | Inr b \<Rightarrow> rhs_boundary (enumerate 0 (coord m)) b))"

text \<open>\<open>x[p]\<close> for an index array \<open>p\<close>.\<close>

definition take_indices :: "rat list \<Rightarrow> nat list \<Rightarrow> error + rat list" where
  "take_indices x p =
     (if list_all (\<lambda>i. i < length x) p then Inr (map (\<lambda>i. x ! i) p) else Inl IndexError)"

definition rhs :: "rat list \<Rightarrow> state \<Rightarrow> error + rat list" where
  "rhs fv st =
     (case rhs_unpermuted fv (mesh st) of Inl err \<Rightarrow> Inl err | Inr b \<Rightarrow>
        (case perm st of None \<Rightarrow> Inl NameError | Some p \<Rightarrow> take_indices b p))"

text \<open>
  \<open>solve(b)\<close>: \<open>spsolve(A, b)[inv_perm]\<close>. scipy's \<open>spsolve\<close> is the parameter
  \<open>spsolve\<close>; \<open>mat_vec\<close> states what it solves.
\<close>

definition solve :: "(matrix \<Rightarrow> rat list \<Rightarrow> rat list) \<Rightarrow> rat list \<Rightarrow> state \<Rightarrow> error + rat list" where
  "solve spsolve b st =
     (case A st of None \<Rightarrow> Inl NameError | Some M \<Rightarrow>
        (let x = spsolve M b in
         (case inv_perm st of None \<Rightarrow> Inl NameError | Some q \<Rightarrow> take_indices x q)))"

definition mat_vec :: "matrix \<Rightarrow> rat list \<Rightarrow> rat list" where
  "mat_vec M x = map (\<lambda>row. sum_list (map2 (*) row x)) M"

text \<open>
  The notebook's last cell with \<open>lvl\<close> rounds of refinement:
  \<open>initial(); refine(lvl); assmblstiff(); reorder_matrix(); u = solve(rhs(f()))\<close>,
  run from globals \<open>st\<close> (\<open>initial()\<close> rebinds the mesh only).
\<close>

definition all_in_one ::
  "(matrix \<Rightarrow> nat list) \<Rightarrow> (matrix \<Rightarrow> rat list \<Rightarrow> rat list) \<Rightarrow> int \<Rightarrow> state \<Rightarrow> error + rat list" where
  "all_in_one rcm spsolve lvl st =
     (case refine lvl initial of Inl err \<Rightarrow> Inl err | Inr m \<Rightarrow>
      (case assmblstiff (st\<lparr>mesh := m\<rparr>) of
         (Some err, st1) \<Rightarrow> Inl err
       | (None, st1) \<Rightarrow>
          (case reorder_matrix rcm st1 of
             (Some err, st2) \<Rightarrow> Inl err
           | (None, st2) \<Rightarrow>
              (case rhs (f (mesh st2)) st2 of
                 Inl err \<Rightarrow> Inl err
               | Inr b \<Rightarrow> solve spsolve b st2))))"

text \<open>The globals of a fresh interpreter once \<open>initial()\<close> has run.\<close>

definition fresh :: state where
  "fresh = \<lparr>mesh = initial, A = None, perm = None, inv_perm = None\<rparr>"

section \<open>Predicates used in the statements\<close>

text \<open>An element over \<open>n\<close> nodes: three valid, pairwise different node indices.\<close>

definition elem_ok :: "nat \<Rightarrow> element \<Rightarrow> bool" where
  "elem_ok n e = (case e of (a, b, c) \<Rightarrow> a < n \<and> b < n \<and> c < n \<and> a \<noteq> b \<and> b \<noteq> c \<and> a \<noteq> c)"

text \<open>
  Twice the signed area of the triangle \<open>p q r\<close>, and an element whose three
  nodes do not lie on one line.
\<close>

definition cross :: "node \<Rightarrow> node \<Rightarrow> node \<Rightarrow> rat" where
  "cross p q r = (fst q - fst p) * (snd r - snd p) - (snd q - snd p) * (fst r - fst p)"

definition nondegenerate :: "node list \<Rightarrow> element \<Rightarrow> bool" where
  "nondegenerate cs e = (case e of (a, b, c) \<Rightarrow> cross (cs ! a) (cs ! b) (cs ! c) \<noteq> 0)"

definition mesh_ok :: "mesh \<Rightarrow> bool" where
  "mesh_ok m = (distinct (coord m) \<and> list_all (elem_ok (length (coord m))) (elem m)
                \<and> list_all (nondegenerate (coord m)) (elem m))"

text \<open>The last level is a non-empty table entry that ends at the end of \<open>elem\<close>.\<close>

definition level_ok :: "mesh \<Rightarrow> bool" where
  "level_ok m = (emax m \<noteq> [] \<and> snd (last (emax m)) + 1 = length (elem m)
                 \<and> fst (last (emax m)) \<le> snd (last (emax m)) + 1)"

text \<open>
  The number of elements of the finest level, \<open>emax[-1][1] - emax[-1][0] + 1\<close> as
  \<open>refine\<close> prints it.
\<close>

definition finest_size :: "mesh \<Rightarrow> nat" where
  "finest_size m = snd (last (emax m)) + 1 - fst (last (emax m))"

definition mesh_inv :: "mesh \<Rightarrow> bool" where
  "mesh_inv m = (mesh_ok m \<and> level_ok m)"

text \<open>An \<open>n\<close> by \<open>n\<close> matrix, and the symmetry \<open>A[i,j] == A[j,i]\<close> of its entries.\<close>

definition square :: "nat \<Rightarrow> matrix \<Rightarrow> bool" where
  "square n M = (length M = n \<and> list_all (\<lambda>row. length row = n) M)"

definition symmetric :: "matrix \<Rightarrow> bool" where
  "symmetric M = (\<forall>i<length M. \<forall>j<length M. M ! i ! j = M ! j ! i)"

text \<open>Row \<open>i\<close> of the \<open>n\<close> by \<open>n\<close> identity matrix.\<close>

definition unit_row :: "nat \<Rightarrow> nat \<Rightarrow> rat list" where
  "unit_row n i = (replicate n 0)[i := 1]"

text \<open>
  The inverse array undoes the permutation array, and the two globals are
  either both unset or a pair that does.
\<close>

definition roundtrip :: "nat list \<Rightarrow> nat list \<Rightarrow> bool" where
  "roundtrip p q = (length q = length p \<and> (\<forall>i<length p. q ! (p ! i) = i))"

definition perms_ok :: "state \<Rightarrow> bool" where
  "perms_ok st =
     (case perm st of
        None \<Rightarrow> inv_perm st = None
      | Some p \<Rightarrow> (case inv_perm st of None \<Rightarrow> False | Some q \<Rightarrow> roundtrip p q))"

text \<open>
  Where the rational model of \<open>area\<close> and of the denominators of \<open>elstiff\<close>
  is the float64 computation: every coordinate is \<open>n / 2^k\<close> for an integer
  \<open>n\<close> of at most 25 bits and one \<open>k \<le> 400\<close>. Then each difference of two
  coordinates has at most 26 bits, each product of two differences at most
  52, and each difference of two products at most 53, so none of these
  float64 operations rounds, overflows or underflows, and the source's
  denominators and area are zero exactly when the model's are. The meshes
  built by \<open>initial()\<close> and \<open>refine\<close> are of this kind at any depth that fits
  in memory.
\<close>

definition dyadic25 :: "nat \<Rightarrow> rat \<Rightarrow> bool" where
  "dyadic25 k x = (of_int \<lfloor>x * 2 ^ k\<rfloor> = x * 2 ^ k \<and> \<bar>x * 2 ^ k\<bar> \<le> 2 ^ 25)"

definition exact_coords :: "nat \<Rightarrow> node list \<Rightarrow> bool" where
  "exact_coords k cs =
     (k \<le> 400 \<and> list_all (\<lambda>p. dyadic25 k (fst p) \<and> dyadic25 k (snd p)) cs)"

text \<open>The three node indices of an element are indices of the node list.\<close>

definition in_range :: "nat \<Rightarrow> element \<Rightarrow> bool" where
  "in_range n e = (enode e 0 < n \<and> enode e 1 < n \<and> enode e 2 < n)"

text \<open>The nonzero pattern of a matrix.\<close>

definition pattern :: "matrix \<Rightarrow> bool list list" where
  "pattern M = map (map (\<lambda>v. v \<noteq> 0)) M"

text \<open>
  Example input: four nodes, the triangle \<open>(0, 1, 2)\<close> followed by the element
  \<open>(0, 1, 3)\<close> whose three nodes lie on one line, both in the only level; no
  matrix or permutation has been stored yet.
\<close>

definition degenerate_state :: state where
  "degenerate_state =
     \<lparr>mesh = \<lparr>coord = [(0, 0), (1, 0), (0, 1), (2, 0)],
              elem = [(0, 1, 2), (0, 1, 3)],
              emax = [(0, 1)]\<rparr>,
      A = None, perm = None, inv_perm = None\<rparr>"

text \<open>
  What \<open>reverse_cuthill_mckee\<close> of scipy, which is not part of the repository,
  returns on the matrix stored for the initial mesh. That matrix is diagonal,
  so its graph has nine isolated nodes; the routine visits them in index order
  and returns the order reversed.
\<close>

definition rcm_on_initial :: "matrix \<Rightarrow> nat list" where
  "rcm_on_initial M = [8, 7, 6, 5, 4, 3, 2, 1, 0]"

text \<open>The matrix \<open>assmblstiff\<close> stores for the initial mesh.\<close>

definition initial_matrix :: matrix where
  "initial_matrix =
     [[1, 0, 0, 0, 0, 0, 0, 0, 0],
      [0, 1, 0, 0, 0, 0, 0, 0, 0],
      [0, 0, 1, 0, 0, 0, 0, 0, 0],
      [0, 0, 0, 1, 0, 0, 0, 0, 0],
      [0, 0, 0, 0, 4, 0, 0, 0, 0],
      [0, 0, 0, 0, 0, 1, 0, 0, 0],
      [0, 0, 0, 0, 0, 0, 1, 0, 0],
      [0, 0, 0, 0, 0, 0, 0, 1, 0],
      [0, 0, 0, 0, 0, 0, 0, 0, 1]]"

section \<open>Refinement: invariants\<close>

lemma item_Inr [simp]: "i < length xs \<Longrightarrow> item xs i = Inr (xs ! i)"
  by (simp add: item_def)

lemma find_node_None: "find_node cs n i = None \<Longrightarrow> n \<notin> set cs"
  by (induction cs arbitrary: i) (auto simp: prod_eq_iff split: if_splits)

lemma find_node_Some:
  "find_node cs n i = Some j \<Longrightarrow> i \<le> j \<and> j - i < length cs \<and> cs ! (j - i) = n"
proof (induction cs arbitrary: i)
  case Nil
  then show ?case by simp
next
  case (Cons node rest)
  show ?case
  proof (cases "fst node = fst n \<and> snd node = snd n")
    case True
    with Cons.prems show ?thesis by (simp add: prod_eq_iff)
  next
    case False
    with Cons.prems have "find_node rest n (Suc i) = Some j" by simp
    from Cons.IH[OF this] have "Suc i \<le> j" "j - Suc i < length rest" "rest ! (j - Suc i) = n"
      by simp_all
    then show ?thesis by (simp add: Suc_diff_le less_diff_conv nth_Cons')
  qed
qed

lemma add_node_props:
  assumes "add_node n (cs, k) = (i, cs', k')" and "distinct cs" and "k + 1 = length cs"
  shows "distinct cs' \<and> k' + 1 = length cs' \<and> i < length cs' \<and> cs' ! i = n
         \<and> (\<exists>ext. cs' = cs @ ext)"
proof (cases "find_node cs n 0")
  case None
  then have "n \<notin> set cs" by (rule find_node_None)
  with assms None show ?thesis by (auto simp: add_node_def nth_append)
next
  case (Some j)
  from find_node_Some[OF this] have "j < length cs" "cs ! j = n" by simp_all
  with assms Some show ?thesis by (auto simp: add_node_def)
qed

lemma midpoint_neq:
  "p \<noteq> q \<Longrightarrow> midpoint p q \<noteq> p"
  "p \<noteq> q \<Longrightarrow> midpoint p q \<noteq> q"
  "q \<noteq> r \<Longrightarrow> midpoint p q \<noteq> midpoint p r"
  "p \<noteq> r \<Longrightarrow> midpoint p q \<noteq> midpoint r q"
  "p \<noteq> r \<Longrightarrow> midpoint p q \<noteq> midpoint q r"
  by (auto simp: midpoint_def prod_eq_iff)

lemma cross_children:
  "cross p (midpoint p q) (midpoint p r) = cross p q r / 4"
  "cross (midpoint p q) q (midpoint q r) = cross p q r / 4"
  "cross (midpoint p r) (midpoint q r) r = cross p q r / 4"
  "cross (midpoint q r) (midpoint p r) (midpoint p q) = cross p q r / 4"
  by (simp_all add: cross_def midpoint_def field_simps)

lemma nondegenerate_append:
  "elem_ok (length cs) e \<Longrightarrow> nondegenerate (cs @ ext) e = nondegenerate cs e"
  by (auto simp: elem_ok_def nondegenerate_def nth_append split: prod.splits)

lemma elem_ok_mono: "elem_ok n e \<Longrightarrow> n \<le> n' \<Longrightarrow> elem_ok n' e"
  by (auto simp: elem_ok_def split: prod.splits)

lemma elemrefine_ok:
  assumes ok: "mesh_ok m" and ie: "ie < length (elem m)"
  shows "\<exists>c' ch. elemrefine ie m = Inr (m\<lparr>coord := coord m @ c', elem := elem m @ ch\<rparr>)
           \<and> length ch = 4 \<and> mesh_ok (m\<lparr>coord := coord m @ c', elem := elem m @ ch\<rparr>)"
proof -
  obtain e0 e1 e2 where e: "elem m ! ie = (e0, e1, e2)" by (cases "elem m ! ie") auto
  let ?cs = "coord m"
  from ok ie e have eok: "elem_ok (length ?cs) (e0, e1, e2)"
    by (metis mesh_ok_def list_all_length)
  then have lt: "e0 < length ?cs" "e1 < length ?cs" "e2 < length ?cs"
    and ne: "e0 \<noteq> e1" "e1 \<noteq> e2" "e0 \<noteq> e2"
    by (simp_all add: elem_ok_def)
  from ok have dist: "distinct ?cs" by (simp add: mesh_ok_def)
  let ?p0 = "?cs ! e0" and ?p1 = "?cs ! e1" and ?p2 = "?cs ! e2"
  from ok ie e have nz: "cross ?p0 ?p1 ?p2 \<noteq> 0"
    unfolding mesh_ok_def list_all_length nondegenerate_def by fastforce
  from dist lt ne have pne: "?p0 \<noteq> ?p1" "?p1 \<noteq> ?p2" "?p0 \<noteq> ?p2"
    by (simp_all add: nth_eq_iff_index_eq)
  let ?n1 = "midpoint ?p0 ?p1" and ?n2 = "midpoint ?p1 ?p2" and ?n3 = "midpoint ?p0 ?p2"
  obtain i1 c1 k1 where a1: "add_node ?n1 (?cs, length ?cs - 1) = (i1, c1, k1)"
    by (metis prod_cases3)
  obtain i2 c2 k2 where a2: "add_node ?n2 (c1, k1) = (i2, c2, k2)"
    by (metis prod_cases3)
  obtain i3 c3 k3 where a3: "add_node ?n3 (c2, k2) = (i3, c3, k3)"
    by (metis prod_cases3)
  from lt have "length ?cs - 1 + 1 = length ?cs" by simp
  from add_node_props[OF a1 dist this] obtain x1 where
    p1: "distinct c1" "k1 + 1 = length c1" "i1 < length c1" "c1 ! i1 = ?n1" "c1 = ?cs @ x1"
    by blast
  from add_node_props[OF a2 p1(1) p1(2)] obtain x2 where
    p2: "distinct c2" "k2 + 1 = length c2" "i2 < length c2" "c2 ! i2 = ?n2" "c2 = c1 @ x2"
    by blast
  from add_node_props[OF a3 p2(1) p2(2)] obtain x3 where
    p3: "distinct c3" "k3 + 1 = length c3" "i3 < length c3" "c3 ! i3 = ?n3" "c3 = c2 @ x3"
    by blast
  have c3: "c3 = ?cs @ (x1 @ x2 @ x3)" using p1(5) p2(5) p3(5) by simp
  have len: "length ?cs \<le> length c3" using c3 by simp
  have v0: "c3 ! e0 = ?p0" "c3 ! e1 = ?p1" "c3 ! e2 = ?p2"
    using lt by (simp_all add: c3 nth_append)
  have v1: "c3 ! i1 = ?n1" using p1(3,4) p2(5) p3(5) by (simp add: nth_append)
  have v2: "c3 ! i2 = ?n2" using p2(3,4) p3(5) by (simp add: nth_append)
  have v3: "c3 ! i3 = ?n3" by (rule p3(4))
  have b: "i1 < length c3" "i2 < length c3" "i3 < length c3"
    "e0 < length c3" "e1 < length c3" "e2 < length c3"
    using p1(3) p2(3) p3(3) p2(5) p3(5) lt len by simp_all
  have d: "e0 \<noteq> i1" "i1 \<noteq> i3" "e0 \<noteq> i3" "i1 \<noteq> e1" "e1 \<noteq> i2" "i1 \<noteq> i2"
    "i3 \<noteq> i2" "i2 \<noteq> e2" "i3 \<noteq> e2"
    using v0 v1 v2 v3 pne midpoint_neq[of ?p0 ?p1] midpoint_neq[of ?p1 ?p2]
      midpoint_neq[of ?p0 ?p2] midpoint_neq(3)[of ?p1 ?p2 ?p0]
      midpoint_neq(4)[of ?p0 ?p1 ?p2] midpoint_neq(5)[of ?p0 ?p2 ?p1]
    by metis+
  let ?ch = "[(e0, i1, i3), (i1, e1, i2), (i3, i2, e2), (i2, i3, i1)]"
  have run: "elemrefine ie m = Inr (m\<lparr>coord := c3, elem := elem m @ ?ch\<rparr>)"
    using ie e lt a1 a2 a3 by (simp add: elemrefine_def Let_def)
  have chok: "list_all (elem_ok (length c3)) ?ch"
    using b d by (auto simp: elem_ok_def)
  have old: "list_all (elem_ok (length c3)) (elem m)"
    using ok len by (auto simp: mesh_ok_def list_all_iff intro: elem_ok_mono)
  have chnd: "list_all (nondegenerate c3) ?ch"
    using nz by (simp add: nondegenerate_def v0 v1 v2 v3 cross_children)
  have oldnd: "list_all (nondegenerate c3) (elem m)"
    using ok unfolding c3 mesh_ok_def list_all_iff by (auto simp: nondegenerate_append)
  have "mesh_ok (m\<lparr>coord := c3, elem := elem m @ ?ch\<rparr>)"
    using p3(1) chok old chnd oldnd by (simp add: mesh_ok_def)
  with run c3 show ?thesis
    by (intro exI[of _ "x1 @ x2 @ x3"] exI[of _ ?ch]) simp
qed

lemma refine_elems_ok:
  assumes "mesh_ok m" and "\<forall>ie\<in>set ies. ie < length (elem m)"
  shows "\<exists>c' ch. refine_elems ies m icnt =
             Inr (m\<lparr>coord := coord m @ c', elem := elem m @ ch\<rparr>, icnt + 4 * length ies)
           \<and> length ch = 4 * length ies
           \<and> mesh_ok (m\<lparr>coord := coord m @ c', elem := elem m @ ch\<rparr>)"
  using assms
proof (induction ies arbitrary: m icnt)
  case Nil
  then show ?case by (intro exI[of _ "[]"]) simp
next
  case (Cons ie ies)
  from Cons.prems have "ie < length (elem m)" by simp
  from elemrefine_ok[OF Cons.prems(1) this] obtain c1 ch1 where
    s1: "elemrefine ie m = Inr (m\<lparr>coord := coord m @ c1, elem := elem m @ ch1\<rparr>)"
    and l1: "length ch1 = 4"
    and ok1: "mesh_ok (m\<lparr>coord := coord m @ c1, elem := elem m @ ch1\<rparr>)"
    by blast
  let ?m1 = "m\<lparr>coord := coord m @ c1, elem := elem m @ ch1\<rparr>"
  from Cons.prems(2) have "\<forall>j\<in>set ies. j < length (elem ?m1)" by auto
  from Cons.IH[OF ok1 this, of "icnt + 4"] obtain c2 ch2 where
    s2: "refine_elems ies ?m1 (icnt + 4) =
           Inr (?m1\<lparr>coord := coord ?m1 @ c2, elem := elem ?m1 @ ch2\<rparr>, icnt + 4 + 4 * length ies)"
    and l2: "length ch2 = 4 * length ies"
    and ok2: "mesh_ok (?m1\<lparr>coord := coord ?m1 @ c2, elem := elem ?m1 @ ch2\<rparr>)"
    by blast
  show ?case
    using s1 s2 l1 l2 ok2
    by (intro exI[of _ "c1 @ c2"] exI[of _ "ch1 @ ch2"]) simp
qed

lemma refine_level_ok:
  assumes ok: "mesh_ok m" and lv: "level_ok m" and l: "l = length (emax m)"
  shows "\<exists>c' ch. refine_level l m =
             Inr (m\<lparr>coord := coord m @ c', elem := elem m @ ch,
                    emax := emax m @ [(length (elem m), length (elem m) + 4 * finest_size m - 1)]\<rparr>)
           \<and> length ch = 4 * finest_size m
           \<and> mesh_ok (m\<lparr>coord := coord m @ c', elem := elem m @ ch\<rparr>)"
proof -
  obtain s e where se: "last (emax m) = (s, e)" by (cases "last (emax m)") auto
  from lv se have ne: "emax m \<noteq> []" and e: "e + 1 = length (elem m)" and s: "s \<le> e + 1"
    by (simp_all add: level_ok_def)
  from ne l have l0: "l \<noteq> 0" and it: "item (emax m) (l - 1) = Inr (s, e)"
    using se by (simp_all add: last_conv_nth)
  let ?m1 = "m\<lparr>emax := emax m @ [(e + 1, 0)]\<rparr>"
  have ok1: "mesh_ok ?m1" using ok by (simp add: mesh_ok_def)
  have rng: "\<forall>ie\<in>set [s..<e + 1]. ie < length (elem ?m1)" using e by simp
  from refine_elems_ok[OF ok1 rng, of 0] obtain c' ch where
    r: "refine_elems [s..<e + 1] ?m1 0 =
          Inr (?m1\<lparr>coord := coord ?m1 @ c', elem := elem ?m1 @ ch\<rparr>,
               0 + 4 * length [s..<e + 1])"
    and lc: "length ch = 4 * length [s..<e + 1]"
    and ok2: "mesh_ok (?m1\<lparr>coord := coord ?m1 @ c', elem := elem ?m1 @ ch\<rparr>)"
    by blast
  have len: "length [s..<e + 1] = e + 1 - s" by (rule length_upt)
  have fs: "finest_size m = e + 1 - s" using se s by (simp add: finest_size_def)
  have run: "refine_level l m =
      Inr (m\<lparr>coord := coord m @ c', elem := elem m @ ch,
             emax := emax m @ [(e + 1, e + 1 + 4 * (e + 1 - s) - 1)]\<rparr>)"
    using l0 it r l unfolding len by (simp add: refine_level_def Let_def del: upt_Suc)
  have "mesh_ok (m\<lparr>coord := coord m @ c', elem := elem m @ ch\<rparr>)"
    using ok2 by (simp add: mesh_ok_def)
  moreover have "length (elem m) = e + 1" using e by simp
  ultimately show ?thesis
    unfolding fs using run lc[unfolded len]
    by (intro exI[of _ c'] exI[of _ ch]) simp
qed

lemma mesh_inv_initial: "mesh_inv initial"
  by (simp add: mesh_inv_def mesh_ok_def level_ok_def initial_def elem_ok_def
      nondegenerate_def cross_def)

lemma refine_level_inv:
  assumes inv: "mesh_inv m" and l: "l = length (emax m)"
  shows "\<exists>m'. refine_level l m = Inr m' \<and> mesh_inv m'
           \<and> length (emax m') = Suc l
           \<and> take (length (elem m)) (elem m') = elem m
           \<and> take (length (coord m)) (coord m') = coord m
           \<and> last (emax m') = (length (elem m), length (elem m') - 1)
           \<and> finest_size m' = 4 * finest_size m
           \<and> length (elem m') = length (elem m) + 4 * finest_size m"
proof -
  from inv have ok: "mesh_ok m" and lv: "level_ok m" by (simp_all add: mesh_inv_def)
  from refine_level_ok[OF ok lv l] obtain c' ch where
    r: "refine_level l m =
          Inr (m\<lparr>coord := coord m @ c', elem := elem m @ ch,
                 emax := emax m @ [(length (elem m), length (elem m) + 4 * finest_size m - 1)]\<rparr>)"
    and lc: "length ch = 4 * finest_size m"
    and ok': "mesh_ok (m\<lparr>coord := coord m @ c', elem := elem m @ ch\<rparr>)"
    by blast
  let ?m' = "m\<lparr>coord := coord m @ c', elem := elem m @ ch,
                 emax := emax m @ [(length (elem m), length (elem m) + 4 * finest_size m - 1)]\<rparr>"
  from lv have "snd (last (emax m)) + 1 = length (elem m)" by (simp add: level_ok_def)
  then have pos: "0 < length (elem m)" by arith
  have "mesh_ok ?m'" using ok' by (simp add: mesh_ok_def)
  moreover have "level_ok ?m'" using lc pos by (simp add: level_ok_def)
  moreover have "finest_size ?m' = 4 * finest_size m" using pos by (simp add: finest_size_def)
  ultimately show ?thesis using r l lc pos
    by (intro exI[of _ ?m']) (simp add: mesh_inv_def)
qed

lemma refine_loop_inv:
  assumes "mesh_inv m" and "l = length (emax m)"
  shows "\<exists>m'. refine_loop l n m = Inr m' \<and> mesh_inv m'
           \<and> length (emax m') = l + n
           \<and> take (length (elem m)) (elem m') = elem m
           \<and> take (length (coord m)) (coord m') = coord m
           \<and> finest_size m' = 4 ^ n * finest_size m"
  using assms
proof (induction n arbitrary: l m)
  case 0
  then show ?case by simp
next
  case (Suc n)
  from refine_level_inv[OF Suc.prems] obtain m1 where
    r1: "refine_level l m = Inr m1" and i1: "mesh_inv m1"
    and l1: "length (emax m1) = Suc l"
    and e1: "take (length (elem m)) (elem m1) = elem m"
    and c1: "take (length (coord m)) (coord m1) = coord m"
    and f1: "finest_size m1 = 4 * finest_size m"
    by blast
  from Suc.IH[OF i1 l1[symmetric]] obtain m' where
    r2: "refine_loop (Suc l) n m1 = Inr m'" and i2: "mesh_inv m'"
    and l2: "length (emax m') = Suc l + n"
    and e2: "take (length (elem m1)) (elem m') = elem m1"
    and c2: "take (length (coord m1)) (coord m') = coord m1"
    and f2: "finest_size m' = 4 ^ n * finest_size m1"
    by blast
  have "take (length (elem m)) (elem m') = elem m"
    by (metis e1 e2 take_take min.absorb1 length_take min.cobounded1 nat_le_linear take_all)
  moreover have "take (length (coord m)) (coord m') = coord m"
    by (metis c1 c2 take_take min.absorb1 length_take min.cobounded1 nat_le_linear take_all)
  ultimately show ?case using r1 r2 i2 l2 f1 f2 by simp
qed

lemma refine_loop_add:
  "refine_loop l (a + b) m =
     (case refine_loop l a m of Inl err \<Rightarrow> Inl err | Inr m' \<Rightarrow> refine_loop (l + a) b m')"
  by (induction a arbitrary: l m) (auto split: sum.splits)

lemma reachable_inv: "reachable m \<Longrightarrow> mesh_inv m"
proof (induction rule: reachable.induct)
  case reachable_initial
  show ?case by (rule mesh_inv_initial)
next
  case (reachable_refine m lvl m')
  from refine_loop_inv[OF reachable_refine.IH refl, of "nat lvl"] reachable_refine.hyps(2)
  show ?case by (auto simp: refine_def)
qed

lemma refine_nat: "refine (int k) m = refine_loop (length (emax m)) k m"
  by (simp add: refine_def)

lemma emax_initial: "length (emax initial) = 1"
  by (simp add: initial_def)

lemma refine_initial_inv:
  "\<exists>m. refine (int k) initial = Inr m \<and> mesh_inv m \<and> length (emax m) = 1 + k
        \<and> finest_size m = 8 * 4 ^ k"
proof -
  have l: "1 = length (emax initial)" by (simp add: initial_def)
  have fs: "finest_size initial = 8" by (simp add: finest_size_def initial_def)
  from refine_loop_inv[OF mesh_inv_initial l, of k] fs show ?thesis
    unfolding refine_nat l[symmetric] by auto
qed

lemma refine_initial_add:
  assumes "refine (int a) initial = Inr m"
  shows "refine (int (a + b)) initial = refine (int b) m"
proof -
  from refine_initial_inv[of a] assms have len: "length (emax m) = 1 + a" by auto
  from assms have "refine_loop 1 a initial = Inr m"
    unfolding refine_nat emax_initial .
  then have "refine_loop 1 (a + b) initial = refine_loop (1 + a) b m"
    by (simp add: refine_loop_add)
  then show ?thesis unfolding refine_nat emax_initial len .
qed

lemma take_prefix_trans:
  assumes "take (length xs) ys = xs" and "take (length ys) zs = ys"
  shows "take (length xs) zs = xs"
proof -
  have "length (take (length xs) ys) = length xs" using assms(1) by simp
  then have "length xs \<le> length ys" by simp
  then have "take (length xs) (take (length ys) zs) = take (length xs) zs"
    by (simp add: min.absorb1)
  with assms show ?thesis by simp
qed

text \<open>
  C4. For every \<open>k\<close>, \<open>refine(k)\<close> on the initial mesh returns a mesh \<open>m\<close> whose
  finest level holds \<open>8 * 4^k\<close> elements and ends at the end of the element list.
  One more round returns \<open>m'\<close>, whose last level is exactly the range of the
  \<open>8 * 4^(k+1)\<close> elements appended by that round, and the element list of \<open>m\<close>
  (as that of every earlier stage \<open>m0\<close>, after \<open>k - j\<close> rounds) is still the
  front of the later list.
\<close>

theorem refine_finest_level:
  "\<exists>m0 m m'. refine (int (k - j)) initial = Inr m0
     \<and> refine (int k) initial = Inr m
     \<and> refine (int (Suc k)) initial = Inr m'
     \<and> finest_size m = 8 * 4 ^ k
     \<and> length (finest_elems m) = 8 * 4 ^ k
     \<and> snd (last (emax m)) + 1 = length (elem m)
     \<and> last (emax m') = (length (elem m), length (elem m') - 1)
     \<and> length (elem m') = length (elem m) + 8 * 4 ^ Suc k
     \<and> take (length (elem m0)) (elem m) = elem m0
     \<and> take (length (elem m)) (elem m') = elem m"
proof -
  from refine_initial_inv[of k] obtain m where
    m: "refine (int k) initial = Inr m" and inv: "mesh_inv m"
    and len: "length (emax m) = 1 + k" and fs: "finest_size m = 8 * 4 ^ k"
    by blast
  from refine_initial_inv[of "k - j"] obtain m0 where
    m0: "refine (int (k - j)) initial = Inr m0" and inv0: "mesh_inv m0"
    by blast
  from inv have lv: "snd (last (emax m)) + 1 = length (elem m)"
    by (simp add: mesh_inv_def level_ok_def)
  have fe: "length (finest_elems m) = 8 * 4 ^ k"
    using lv fs by (simp add: finest_elems_def finest_size_def)
  from refine_level_inv[OF inv len[symmetric]] obtain m' where
    r: "refine_level (1 + k) m = Inr m'"
    and tk: "take (length (elem m)) (elem m') = elem m"
    and la: "last (emax m') = (length (elem m), length (elem m') - 1)"
    and le: "length (elem m') = length (elem m) + 4 * finest_size m"
    by blast
  have "refine (int (k + 1)) initial = refine 1 m"
    using refine_initial_add[OF m, of 1] by simp
  also have "\<dots> = Inr m'" using r len refine_nat[of 1 m] by simp
  finally have m': "refine (int (Suc k)) initial = Inr m'" by simp
  have "refine (int ((k - j) + (k - (k - j)))) initial = refine (int (k - (k - j))) m0"
    by (rule refine_initial_add[OF m0])
  then have "refine (int (k - (k - j))) m0 = Inr m" using m by simp
  moreover from refine_loop_inv[OF inv0 refl, of "k - (k - j)"] obtain m1 where
    "refine_loop (length (emax m0)) (k - (k - j)) m0 = Inr m1"
    and "take (length (elem m0)) (elem m1) = elem m0"
    by blast
  ultimately have tk0: "take (length (elem m0)) (elem m) = elem m0"
    unfolding refine_nat by simp
  show ?thesis using m0 m m' fs fe lv la le tk0 tk by simp
qed

lemma add_node_cases:
  shows "n \<in> set cs \<Longrightarrow> \<exists>i<length cs. cs ! i = n \<and> add_node n (cs, k) = (i, cs, k)"
    and "n \<notin> set cs \<Longrightarrow> add_node n (cs, k) = (k + 1, cs @ [n], k + 1)"
proof -
  show "\<exists>i<length cs. cs ! i = n \<and> add_node n (cs, k) = (i, cs, k)" if "n \<in> set cs"
  proof (cases "find_node cs n 0")
    case None
    with that show ?thesis using find_node_None by blast
  next
    case (Some j)
    from find_node_Some[OF this] Some show ?thesis by (auto simp: add_node_def)
  qed
  show "add_node n (cs, k) = (k + 1, cs @ [n], k + 1)" if "n \<notin> set cs"
  proof (cases "find_node cs n 0")
    case None
    then show ?thesis by (simp add: add_node_def)
  next
    case (Some j)
    from find_node_Some[OF this] that show ?thesis by auto
  qed
qed

text \<open>
  C5. Node sharing: in every mesh the program can hold (after \<open>initial()\<close> and
  any sequence of \<open>refine\<close> calls) the node list has no repeated coordinate
  pair, and a further \<open>refine\<close> call returns (it never raises) a mesh with the
  same property. The reason is the insertion of a midpoint \<open>n\<close>: it returns the
  index of a node equal to \<open>n\<close> and leaves the list alone when there is one,
  and appends \<open>n\<close> and returns the new last index otherwise.
\<close>

theorem reachable_nodes_distinct:
  "reachable m \<Longrightarrow>
     distinct (coord m) \<and> (\<exists>m'. refine lvl m = Inr m' \<and> distinct (coord m'))
     \<and> (n \<in> set (coord m) \<longrightarrow>
          (\<exists>i<length (coord m). coord m ! i = n \<and> add_node n (coord m, k) = (i, coord m, k)))
     \<and> (n \<notin> set (coord m) \<longrightarrow>
          add_node n (coord m, k) = (k + 1, coord m @ [n], k + 1))"
proof -
  assume "reachable m"
  then have inv: "mesh_inv m" by (rule reachable_inv)
  from refine_loop_inv[OF inv refl, of "nat lvl"] obtain m' where
    "refine lvl m = Inr m'" and "mesh_inv m'"
    by (auto simp: refine_def)
  with inv have "distinct (coord m) \<and> (\<exists>m'. refine lvl m = Inr m' \<and> distinct (coord m'))"
    by (auto simp: mesh_inv_def mesh_ok_def)
  with add_node_cases[of n "coord m" k] show ?thesis by blast
qed

theorem reachable_nodes_distinct_witness:
  "reachable initial \<and> distinct (coord initial)
     \<and> (\<exists>m'. refine 2 initial = Inr m' \<and> distinct (coord m'))
     \<and> add_node (1/2, 1/2) (coord initial, 8) = (4, coord initial, 8)
     \<and> add_node (1/4, 1/4) (coord initial, 8) = (9, coord initial @ [(1/4, 1/4)], 9)"
proof -
  have a: "add_node (1/2, 1/2) (coord initial, 8) = (4, coord initial, 8)"
    by (simp add: add_node_def initial_def)
  have b: "add_node (1/4, 1/4) (coord initial, 8) = (9, coord initial @ [(1/4, 1/4)], 9)"
    by (simp add: add_node_def initial_def)
  from reachable_nodes_distinct[OF reachable_initial, of 2 "(1/2, 1/2)" 8] reachable_initial a b
  show ?thesis by simp
qed

text \<open>
  C9. \<open>refine(2)\<close> followed by \<open>refine(3)\<close> on the initial mesh and a single
  \<open>refine(5)\<close> both return, and return the same mesh: the same number of nodes,
  of elements, and of elements in the finest level (8192).
\<close>

theorem refine_2_3_eq_refine_5:
  "\<exists>m2 m23 m5. refine 2 initial = Inr m2 \<and> refine 3 m2 = Inr m23
     \<and> refine 5 initial = Inr m5
     \<and> length (coord m23) = length (coord m5)
     \<and> length (elem m23) = length (elem m5)
     \<and> finest_size m23 = finest_size m5
     \<and> finest_size m5 = 8192
     \<and> m23 = m5"
proof -
  from refine_initial_inv[of 2] obtain m2 where m2: "refine 2 initial = Inr m2" by auto
  from refine_initial_inv[of 5] obtain m5 where
    m5: "refine 5 initial = Inr m5" and fs: "finest_size m5 = 8 * 4 ^ 5" by auto
  from refine_initial_add[of 2 m2 3] m2 have "refine 5 initial = refine 3 m2" by simp
  with m5 have "refine 3 m2 = Inr m5" by simp
  with m2 m5 fs show ?thesis by simp
qed

text \<open>
  C10. In every mesh the program can hold, every element of the element list
  has three pairwise different node indices, each below the length of the node
  list (the node list only grows, so an index valid when the element was
  created stays valid).
\<close>

theorem reachable_elements_ok:
  "reachable m \<Longrightarrow> list_all (elem_ok (length (coord m))) (elem m)"
  using reachable_inv[of m] by (simp add: mesh_inv_def mesh_ok_def)

theorem reachable_elements_ok_witness:
  "\<exists>m. refine 1 initial = Inr m \<and> reachable m
       \<and> list_all (elem_ok (length (coord m))) (elem m)"
proof -
  from refine_initial_inv[of 1] obtain m where m: "refine 1 initial = Inr m" by auto
  have r: "reachable m" by (rule reachable_refine[OF reachable_initial m])
  from reachable_elements_ok[OF r] m r show ?thesis by blast
qed

section \<open>Matrix updates\<close>

lemma square_nth: "square n M \<Longrightarrow> i < n \<Longrightarrow> length (M ! i) = n"
  by (simp add: square_def list_all_length)

lemma square_zeros: "square n (zeros n)"
  by (simp add: square_def zeros_def list_all_length)

lemma zeros_nth: "i < n \<Longrightarrow> j < n \<Longrightarrow> zeros n ! i ! j = 0"
  by (simp add: zeros_def)

lemma square_update:
  "square n M \<Longrightarrow> length row = n \<Longrightarrow> square n (M[i := row])"
  by (auto simp: square_def list_all_iff dest!: subsetD[OF set_update_subset_insert])

lemma mat_add_square: "square n M \<Longrightarrow> square n (mat_add M i j v)"
proof (cases "i < n")
  case True
  assume sq: "square n M"
  with True have "length ((M ! i)[j := M ! i ! j + v]) = n" by (simp add: square_nth)
  with sq show ?thesis unfolding mat_add_def by (rule square_update)
next
  case False
  assume "square n M"
  with False show ?thesis by (simp add: mat_add_def square_def list_update_beyond)
qed

lemma mat_add_nth:
  assumes "square n M" and "i' < n" and "j' < n"
  shows "mat_add M i j v ! i' ! j' = M ! i' ! j' + (if i = i' \<and> j = j' then v else 0)"
proof -
  from assms have len: "length M = n" "length (M ! i') = n"
    by (simp_all add: square_def list_all_length)
  show ?thesis
    using assms(2,3) len by (cases "i = i'") (simp_all add: mat_add_def nth_list_update)
qed

lemma mat_set_square: "square n M \<Longrightarrow> square n (mat_set M i j v)"
proof (cases "i < n")
  case True
  assume sq: "square n M"
  with True have "length ((M ! i)[j := v]) = n" by (simp add: square_nth)
  with sq show ?thesis unfolding mat_set_def by (rule square_update)
next
  case False
  assume "square n M"
  with False show ?thesis by (simp add: mat_set_def square_def list_update_beyond)
qed

lemma mat_set_nth:
  assumes "square n M" and "i' < n" and "j' < n"
  shows "mat_set M i j v ! i' ! j' = (if i = i' \<and> j = j' then v else M ! i' ! j')"
proof -
  from assms have len: "length M = n" "length (M ! i') = n"
    by (simp_all add: square_def list_all_length)
  show ?thesis
    using assms(2,3) len by (cases "i = i'") (simp_all add: mat_set_def nth_list_update)
qed

lemma set_row_square: "square n M \<Longrightarrow> square n (set_row M i v)"
proof (cases "i < n")
  case True
  assume sq: "square n M"
  with True have "length (map (\<lambda>_. v) (M ! i)) = n" by (simp add: square_nth)
  with sq show ?thesis unfolding set_row_def by (rule square_update)
next
  case False
  assume "square n M"
  with False show ?thesis by (simp add: set_row_def square_def list_update_beyond)
qed

lemma set_row_nth:
  assumes "square n M" and "i' < n" and "j' < n"
  shows "set_row M i v ! i' ! j' = (if i = i' then v else M ! i' ! j')"
proof -
  from assms have len: "length M = n" "length (M ! i') = n"
    by (simp_all add: square_def list_all_length)
  show ?thesis
    using assms(2,3) len by (cases "i = i'") (simp_all add: set_row_def)
qed

lemma set_col_square: "square n M \<Longrightarrow> square n (set_col M j v)"
  by (simp add: set_col_def square_def list_all_length)

lemma set_col_nth:
  assumes "square n M" and "i' < n" and "j' < n"
  shows "set_col M j v ! i' ! j' = (if j = j' then v else M ! i' ! j')"
proof -
  from assms have len: "length M = n" "length (M ! i') = n"
    by (simp_all add: square_def list_all_length)
  show ?thesis
    using assms(2,3) len by (auto simp: set_col_def nth_list_update)
qed

text \<open>One step of the boundary loop on a boundary node \<open>k\<close>.\<close>

lemma boundary_step_square:
  "square n M \<Longrightarrow> square n (mat_set (set_col (set_row M k 0) k 0) k k 1)"
  by (intro mat_set_square set_col_square set_row_square)

lemma boundary_step_nth:
  assumes "square n M" and "i < n" and "j < n"
  shows "mat_set (set_col (set_row M k 0) k 0) k k 1 ! i ! j =
           (if i = k \<or> j = k then (if i = j then 1 else 0) else M ! i ! j)"
proof -
  have s1: "square n (set_row M k 0)" using assms(1) by (rule set_row_square)
  have s2: "square n (set_col (set_row M k 0) k 0)" using s1 by (rule set_col_square)
  show ?thesis
    unfolding mat_set_nth[OF s2 assms(2,3)] set_col_nth[OF s1 assms(2,3)] set_row_nth[OF assms]
    by auto
qed

lemma correct_boundary_square:
  "square n M \<Longrightarrow> square n (correct_boundary ps M)"
  by (induction ps arbitrary: M) (simp_all add: boundary_step_square)

lemma correct_boundary_nth:
  assumes "square n M" and "i < n" and "j < n"
  shows "correct_boundary ps M ! i ! j =
           (if \<exists>p\<in>set ps. on_boundary (snd p) \<and> (fst p = i \<or> fst p = j)
            then (if i = j then 1 else 0) else M ! i ! j)"
  using assms(1)
proof (induction ps arbitrary: M)
  case Nil
  then show ?case by simp
next
  case (Cons p ps)
  show ?case
  proof (cases "on_boundary (snd p)")
    case True
    let ?M' = "mat_set (set_col (set_row M (fst p) 0) (fst p) 0) (fst p) (fst p) 1"
    have sq: "square n ?M'" using Cons.prems by (rule boundary_step_square)
    have step: "?M' ! i ! j =
        (if i = fst p \<or> j = fst p then (if i = j then 1 else 0) else M ! i ! j)"
      by (rule boundary_step_nth[OF Cons.prems assms(2,3)])
    have "correct_boundary (p # ps) M ! i ! j =
        (if \<exists>q\<in>set ps. on_boundary (snd q) \<and> (fst q = i \<or> fst q = j)
         then (if i = j then 1 else 0) else ?M' ! i ! j)"
      using True Cons.IH[OF sq] by simp
    then show ?thesis unfolding step using True by auto
  next
    case False
    then show ?thesis using Cons.IH[OF Cons.prems] by auto
  qed
qed

section \<open>Assembly: symmetry\<close>

lemma pairs9:
  "List.product [0..<3] [0..<3] =
     [(0,0), (0,1), (0,2), (1,0), (1,1), (1,2), (2,0), (2,1), (2,2)]"
  by code_simp

lemma foldl_mat_add_square:
  "square n M \<Longrightarrow>
   square n (foldl (\<lambda>M' kl. mat_add M' (g (fst kl)) (g (snd kl)) (h kl)) M ps)"
  by (induction ps arbitrary: M) (simp_all add: mat_add_square)

lemma foldl_mat_add_nth:
  assumes "square n M" and "i < n" and "j < n"
  shows "foldl (\<lambda>M' kl. mat_add M' (g (fst kl)) (g (snd kl)) (h kl)) M ps ! i ! j =
           M ! i ! j
           + sum_list (map (\<lambda>kl. if g (fst kl) = i \<and> g (snd kl) = j then h kl else 0) ps)"
  using assms(1)
proof (induction ps arbitrary: M)
  case Nil
  then show ?case by simp
next
  case (Cons kl ps)
  have sq: "square n (mat_add M (g (fst kl)) (g (snd kl)) (h kl))"
    using Cons.prems by (rule mat_add_square)
  show ?case
    by (simp add: Cons.IH[OF sq] mat_add_nth[OF Cons.prems assms(2,3)])
qed

lemma add_block_square: "square n M \<Longrightarrow> square n (add_block e ae M)"
  unfolding add_block_def by (rule foldl_mat_add_square)

lemma add_block_symmetric:
  assumes sq: "square n M" and sym: "symmetric M"
    and ae: "ae ! 1 ! 0 = ae ! 0 ! 1" "ae ! 2 ! 0 = ae ! 0 ! 2" "ae ! 2 ! 1 = ae ! 1 ! 2"
  shows "symmetric (add_block e ae M)"
proof -
  have len: "length M = n" using sq by (simp add: square_def)
  have len': "length (add_block e ae M) = n"
    using add_block_square[OF sq] by (simp add: square_def)
  have E: "add_block e ae M ! i ! j =
      M ! i ! j + sum_list (map (\<lambda>kl. if enode e (fst kl) = i \<and> enode e (snd kl) = j
                                     then ae ! fst kl ! snd kl else 0)
                              (List.product [0..<3] [0..<3]))"
    if "i < n" "j < n" for i j
    unfolding add_block_def by (rule foldl_mat_add_nth[OF sq that])
  have "add_block e ae M ! i ! j = add_block e ae M ! j ! i" if "i < n" "j < n" for i j
  proof -
    have "M ! i ! j = M ! j ! i" using sym that len by (simp add: symmetric_def)
    then show ?thesis
      unfolding E[OF that] E[OF that(2,1)] pairs9 using ae by auto
  qed
  then show ?thesis by (simp add: symmetric_def len')
qed

lemma elstiff_symmetric:
  assumes "elstiff m ie = Inr ae"
  shows "ae ! 1 ! 0 = ae ! 0 ! 1 \<and> ae ! 2 ! 0 = ae ! 0 ! 2 \<and> ae ! 2 ! 1 = ae ! 1 ! 2"
  using assms by (auto simp: elstiff_def Let_def split: sum.splits if_splits)

lemma assemble_elems_symmetric:
  "square n M \<Longrightarrow> symmetric M \<Longrightarrow>
     square n (snd (assemble_elems m ie es M)) \<and> symmetric (snd (assemble_elems m ie es M))"
proof (induction es arbitrary: ie M)
  case Nil
  then show ?case by simp
next
  case (Cons e es)
  show ?case
  proof (cases "elstiff m ie")
    case (Inl err)
    with Cons.prems show ?thesis by simp
  next
    case (Inr ae)
    from elstiff_symmetric[OF Inr] Cons.prems
    have "symmetric (add_block e ae M)" by (intro add_block_symmetric) simp_all
    moreover have "square n (add_block e ae M)" using Cons.prems(1) by (rule add_block_square)
    ultimately show ?thesis using Cons.IH Inr by simp
  qed
qed

lemma symmetric_zeros: "symmetric (zeros n)"
  by (simp add: symmetric_def zeros_def)

lemma assemble_symmetric:
  "square (length (coord m)) (snd (assemble m)) \<and> symmetric (snd (assemble m))"
  unfolding assemble_def
  by (rule assemble_elems_symmetric[OF square_zeros symmetric_zeros])

lemma correct_boundary_symmetric:
  assumes "square n M" and "symmetric M"
  shows "symmetric (correct_boundary ps M)"
proof -
  have len: "length M = n" using assms(1) by (simp add: square_def)
  have len': "length (correct_boundary ps M) = n"
    using correct_boundary_square[OF assms(1)] by (simp add: square_def)
  have "correct_boundary ps M ! i ! j = correct_boundary ps M ! j ! i"
    if "i < n" "j < n" for i j
  proof -
    have "M ! i ! j = M ! j ! i" using assms(2) that len by (simp add: symmetric_def)
    then show ?thesis
      by (auto simp: correct_boundary_nth[OF assms(1) that]
          correct_boundary_nth[OF assms(1) that(2,1)])
  qed
  then show ?thesis by (simp add: symmetric_def len')
qed

section \<open>Boundary rows and symmetry of the assembled matrix\<close>

lemma boundary_enumerate:
  "(\<exists>p\<in>set (enumerate 0 cs). on_boundary (snd p) \<and> (fst p = i \<or> fst p = j)) =
     ((i < length cs \<and> on_boundary (cs ! i)) \<or> (j < length cs \<and> on_boundary (cs ! j)))"
  by (auto simp: in_set_enumerate_eq Bex_def)

lemma assmblstiff_None:
  assumes "assmblstiff st = (None, st')"
  shows "emax (mesh st) \<noteq> [] \<and> fst (assemble (mesh st)) = None
    \<and> st' = st\<lparr>A := Some (correct_boundary (enumerate 0 (coord (mesh st)))
                              (snd (assemble (mesh st))))\<rparr>"
  using assms
  by (auto simp: assmblstiff_def Let_def split: if_splits prod.splits option.splits)

lemma unit_row_nth: "j < n \<Longrightarrow> unit_row n i ! j = (if j = i then 1 else 0)"
  by (auto simp: unit_row_def nth_list_update)

lemma rhs_boundary_nth:
  assumes "rhs_boundary ps b = Inr b'"
  shows "length b' = length b \<and>
    (\<forall>k<length b. b' ! k =
        (if \<exists>p\<in>set ps. on_boundary (snd p) \<and> fst p = k then 0 else b ! k)) \<and>
    (\<forall>p\<in>set ps. on_boundary (snd p) \<longrightarrow> fst p < length b)"
  using assms
proof (induction ps arbitrary: b)
  case Nil
  then show ?case by simp
next
  case (Cons p ps)
  show ?case
  proof (cases "on_boundary (snd p)")
    case True
    with Cons.prems have lt: "fst p < length b"
      and r: "rhs_boundary ps (b[fst p := 0]) = Inr b'"
      by (simp_all split: if_splits)
    from Cons.IH[OF r] have len: "length b' = length b"
      and ent: "\<And>k. k < length b \<Longrightarrow> b' ! k =
        (if \<exists>q\<in>set ps. on_boundary (snd q) \<and> fst q = k then 0 else b[fst p := 0] ! k)"
      and rng: "\<forall>q\<in>set ps. on_boundary (snd q) \<longrightarrow> fst q < length b"
      by simp_all
    have "b' ! k = (if \<exists>q\<in>set (p # ps). on_boundary (snd q) \<and> fst q = k then 0 else b ! k)"
      if "k < length b" for k
      unfolding ent[OF that] using True that by (auto simp: nth_list_update)
    with len rng lt show ?thesis by simp
  next
    case False
    with Cons.prems have "rhs_boundary ps b = Inr b'" by simp
    from Cons.IH[OF this] False show ?thesis by simp
  qed
qed

lemma rhs_elems_length:
  "rhs_elems m fv ie es b = Inr b' \<Longrightarrow> length b' = length b"
  by (induction es arbitrary: ie b)
     (auto simp: vec_add3_def Let_def split: sum.splits)

lemma mesh_fresh: "mesh fresh = initial"
  by (simp add: fresh_def)

lemma assmblstiff_returns:
  assumes "emax (mesh st) \<noteq> []" and "fst (assemble (mesh st)) = None"
  shows "assmblstiff st =
    (None, st\<lparr>A := Some (correct_boundary (enumerate 0 (coord (mesh st)))
                             (snd (assemble (mesh st))))\<rparr>)"
  using assms by (cases "assemble (mesh st)") (simp add: assmblstiff_def)

section \<open>Assembly and right-hand side return on every reachable mesh\<close>

lemma elstiff_returns:
  assumes "ie < length (elem m)" and "elem_ok (length (coord m)) (elem m ! ie)"
    and "nondegenerate (coord m) (elem m ! ie)"
  shows "\<exists>ae. elstiff m ie = Inr ae"
proof -
  obtain e0 e1 e2 where e: "elem m ! ie = (e0, e1, e2)" by (cases "elem m ! ie") auto
  let ?p1 = "coord m ! e0" and ?p2 = "coord m ! e1" and ?p3 = "coord m ! e2"
  from assms(2) e have lt: "e0 < length (coord m)" "e1 < length (coord m)" "e2 < length (coord m)"
    by (simp_all add: elem_ok_def)
  from assms(3) e have nz: "cross ?p1 ?p2 ?p3 \<noteq> 0" by (simp add: nondegenerate_def)
  have d1: "(fst ?p1 - fst ?p2) * (snd ?p3 - snd ?p2) - (fst ?p3 - fst ?p2) * (snd ?p1 - snd ?p2)
              = - cross ?p1 ?p2 ?p3"
    by (simp add: cross_def algebra_simps)
  have d2: "(fst ?p2 - fst ?p3) * (snd ?p1 - snd ?p3) - (fst ?p1 - fst ?p3) * (snd ?p2 - snd ?p3)
              = - cross ?p1 ?p2 ?p3"
    by (simp add: cross_def algebra_simps)
  have d3: "(fst ?p3 - fst ?p1) * (snd ?p2 - snd ?p1) - (fst ?p2 - fst ?p1) * (snd ?p3 - snd ?p1)
              = - cross ?p1 ?p2 ?p3"
    by (simp add: cross_def algebra_simps)
  have n1: "(fst ?p1 - fst ?p2) * (snd ?p3 - snd ?p2) - (fst ?p3 - fst ?p2) * (snd ?p1 - snd ?p2) \<noteq> 0"
    and n2: "(fst ?p2 - fst ?p3) * (snd ?p1 - snd ?p3) - (fst ?p1 - fst ?p3) * (snd ?p2 - snd ?p3) \<noteq> 0"
    and n3: "(fst ?p3 - fst ?p1) * (snd ?p2 - snd ?p1) - (fst ?p2 - fst ?p1) * (snd ?p3 - snd ?p1) \<noteq> 0"
    unfolding d1 d2 d3 using nz by simp_all
  show ?thesis
    using assms(1) e lt n1 n2 n3
    by (simp add: elstiff_def area_def enode_def Let_def)
qed

lemma area_returns:
  assumes "ie < length (elem m)" and "elem_ok (length (coord m)) (elem m ! ie)"
  shows "\<exists>a. area m ie = Inr a"
proof -
  obtain e0 e1 e2 where e: "elem m ! ie = (e0, e1, e2)" by (cases "elem m ! ie") auto
  let ?p0 = "coord m ! e0" and ?p1 = "coord m ! e1" and ?p2 = "coord m ! e2"
  from e assms have "area m ie =
      Inr (1/2 * ((fst ?p1 - fst ?p0) * (snd ?p2 - snd ?p0)
                  - (snd ?p1 - snd ?p0) * (fst ?p2 - fst ?p0)))"
    by (simp add: area_def enode_def elem_ok_def Let_def)
  then show ?thesis by blast
qed

lemma assemble_elems_returns:
  "(\<And>j. j < length es \<Longrightarrow> \<exists>ae. elstiff m (ie + j) = Inr ae) \<Longrightarrow>
     fst (assemble_elems m ie es M) = None"
proof (induction es arbitrary: ie M)
  case Nil
  then show ?case by simp
next
  case (Cons e es)
  from Cons.prems[of 0] obtain ae where ae: "elstiff m ie = Inr ae" by auto
  have "\<exists>ae. elstiff m (Suc ie + j) = Inr ae" if "j < length es" for j
    using Cons.prems[of "Suc j"] that by simp
  from Cons.IH[OF this] ae show ?case by simp
qed

lemma finest_elems_inv:
  assumes "mesh_inv m"
  shows "finest_elems m = drop (fst (last (emax m))) (elem m)"
    and "\<And>j. j < length (finest_elems m) \<Longrightarrow> fst (last (emax m)) + j < length (elem m)"
  using assms by (simp_all add: mesh_inv_def level_ok_def finest_elems_def)

lemma assemble_returns:
  assumes "mesh_inv m"
  shows "fst (assemble m) = None"
  unfolding assemble_def
proof (rule assemble_elems_returns)
  fix j assume "j < length (finest_elems m)"
  then have lt: "fst (last (emax m)) + j < length (elem m)"
    by (rule finest_elems_inv(2)[OF assms])
  from assms have "list_all (elem_ok (length (coord m))) (elem m)"
    and "list_all (nondegenerate (coord m)) (elem m)"
    by (simp_all add: mesh_inv_def mesh_ok_def)
  with lt show "\<exists>ae. elstiff m (fst (last (emax m)) + j) = Inr ae"
    by (intro elstiff_returns) (simp_all add: list_all_length)
qed

lemma rhs_elems_returns:
  assumes "\<And>j. j < length es \<Longrightarrow> \<exists>a. area m (ie + j) = Inr a"
    and "list_all (elem_ok (length fv)) es"
  shows "\<exists>b'. rhs_elems m fv ie es b = Inr b'"
  using assms
proof (induction es arbitrary: ie b)
  case Nil
  then show ?case by simp
next
  case (Cons e es)
  from Cons.prems(1)[of 0] obtain a where a: "area m ie = Inr a" by auto
  obtain e0 e1 e2 where e: "e = (e0, e1, e2)" by (cases e) auto
  with Cons.prems(2) have lt: "e0 < length fv" "e1 < length fv" "e2 < length fv"
    by (simp_all add: elem_ok_def)
  have "\<exists>a. area m (Suc ie + j) = Inr a" if "j < length es" for j
    using Cons.prems(1)[of "Suc j"] that by simp
  moreover have "list_all (elem_ok (length fv)) es" using Cons.prems(2) by simp
  ultimately have "\<exists>b'. rhs_elems m fv (Suc ie) es b'' = Inr b'" for b''
    by (rule Cons.IH)
  with a e lt show ?case by (simp add: enode_def)
qed

lemma rhs_boundary_returns:
  "\<forall>p\<in>set ps. fst p < length b \<Longrightarrow> \<exists>b'. rhs_boundary ps b = Inr b'"
  by (induction ps arbitrary: b) simp_all

lemma rhs_unpermuted_returns:
  assumes "mesh_inv m" and "length fv = length (coord m)"
  shows "\<exists>b. rhs_unpermuted fv m = Inr b"
proof -
  from assms(1) have ne: "emax m \<noteq> []"
    and ok: "list_all (elem_ok (length (coord m))) (elem m)"
    by (simp_all add: mesh_inv_def level_ok_def mesh_ok_def)
  have ar: "\<exists>a. area m (fst (last (emax m)) + j) = Inr a" if "j < length (finest_elems m)" for j
  proof -
    from that have "fst (last (emax m)) + j < length (elem m)"
      by (rule finest_elems_inv(2)[OF assms(1)])
    with ok show ?thesis by (intro area_returns) (simp_all add: list_all_length)
  qed
  have "list_all (elem_ok (length fv)) (finest_elems m)"
    using ok unfolding finest_elems_inv(1)[OF assms(1)] assms(2) list_all_iff
    by (auto dest: in_set_dropD)
  from rhs_elems_returns[OF ar this] obtain b1 where
    b1: "rhs_elems m fv (fst (last (emax m))) (finest_elems m) (replicate (length fv) 0) = Inr b1"
    by blast
  from rhs_elems_length[OF b1] have "length b1 = length (coord m)" using assms(2) by simp
  then have "\<forall>p\<in>set (enumerate 0 (coord m)). fst p < length b1"
    by (auto simp: in_set_enumerate_eq)
  from rhs_boundary_returns[OF this] b1 ne show ?thesis
    by (simp add: rhs_unpermuted_def)
qed

lemma reachable_returns:
  assumes "reachable (mesh st)"
  shows "(\<exists>st'. assmblstiff st = (None, st'))
       \<and> (\<exists>b. rhs_unpermuted (f (mesh st)) (mesh st) = Inr b)"
proof -
  from assms have inv: "mesh_inv (mesh st)" by (rule reachable_inv)
  then have "emax (mesh st) \<noteq> []" by (simp add: mesh_inv_def level_ok_def)
  from assmblstiff_returns[OF this assemble_returns[OF inv]]
    rhs_unpermuted_returns[OF inv, of "f (mesh st)"]
  show ?thesis by (simp add: f_def)
qed

text \<open>
  C6. Let node \<open>i\<close> have a coordinate equal to 0 or to 1. When \<open>assmblstiff\<close>
  returns, row \<open>i\<close> of the matrix it stored is row \<open>i\<close> of the identity: zero
  everywhere but for a 1 on the diagonal. When \<open>rhs\<close> has built its vector,
  before \<open>b[perm]\<close>, entry \<open>i\<close> of that vector is 0. On every mesh the program
  can hold, \<open>assmblstiff\<close> does return, and so does the vector loop for
  \<open>f()\<close>.
\<close>

theorem boundary_rows:
  assumes "i < length (coord (mesh st))" and "on_boundary (coord (mesh st) ! i)"
  shows "(assmblstiff st = (None, st') \<longrightarrow>
            (\<exists>M. A st' = Some M \<and> length M = length (coord (mesh st))
                 \<and> M ! i = unit_row (length (coord (mesh st))) i))
       \<and> (rhs_unpermuted fv (mesh st) = Inr b \<longrightarrow> i < length b \<and> b ! i = 0)
       \<and> (reachable (mesh st) \<longrightarrow>
            (\<exists>st1. assmblstiff st = (None, st1))
            \<and> (\<exists>b1. rhs_unpermuted (f (mesh st)) (mesh st) = Inr b1))"
proof -
  let ?n = "length (coord (mesh st))"
  let ?M = "correct_boundary (enumerate 0 (coord (mesh st))) (snd (assemble (mesh st)))"
  have sq0: "square ?n (snd (assemble (mesh st)))" using assemble_symmetric by blast
  then have sq: "square ?n ?M" by (rule correct_boundary_square)
  have row: "?M ! i = unit_row ?n i"
  proof (rule nth_equalityI)
    show "length (?M ! i) = length (unit_row ?n i)"
      using square_nth[OF sq assms(1)] by (simp add: unit_row_def)
  next
    fix j assume "j < length (?M ! i)"
    then have j: "j < ?n" using square_nth[OF sq assms(1)] by simp
    show "?M ! i ! j = unit_row ?n i ! j"
      unfolding correct_boundary_nth[OF sq0 assms(1) j] boundary_enumerate unit_row_nth[OF j]
      using assms by auto
  qed
  have len: "length ?M = ?n" using sq by (simp add: square_def)
  have matrix: "\<exists>M. A st' = Some M \<and> length M = ?n \<and> M ! i = unit_row ?n i"
    if "assmblstiff st = (None, st')"
    using assmblstiff_None[OF that] row len by simp
  have vector: "i < length b \<and> b ! i = 0" if r: "rhs_unpermuted fv (mesh st) = Inr b"
  proof -
    from r obtain b0 where b0: "rhs_boundary (enumerate 0 (coord (mesh st))) b0 = Inr b"
      by (auto simp: rhs_unpermuted_def split: if_splits sum.splits)
    from assms have "(i, coord (mesh st) ! i) \<in> set (enumerate 0 (coord (mesh st)))"
      by (simp add: in_set_enumerate_eq)
    with rhs_boundary_nth[OF b0] assms(2) show ?thesis by fastforce
  qed
  from matrix vector reachable_returns[of st] show ?thesis by blast
qed

lemma assemble_initial_returns: "fst (assemble initial) = None"
  by code_simp

lemma assmblstiff_fresh_returns: "\<exists>st'. assmblstiff fresh = (None, st')"
proof -
  have "emax (mesh fresh) \<noteq> []" by (simp add: fresh_def initial_def)
  moreover have "fst (assemble (mesh fresh)) = None"
    unfolding mesh_fresh by (rule assemble_initial_returns)
  ultimately show ?thesis using assmblstiff_returns by blast
qed

lemma rhs_initial_returns: "\<exists>b. rhs_unpermuted (f initial) initial = Inr b"
proof (cases "rhs_unpermuted (f initial) initial")
  case (Inl err)
  moreover have "(case rhs_unpermuted (f initial) initial of
      Inl err \<Rightarrow> False | Inr b \<Rightarrow> True)" by code_simp
  ultimately show ?thesis by simp
qed simp

theorem boundary_rows_witness:
  "\<exists>st' b. (1::nat) < length (coord (mesh fresh)) \<and> on_boundary (coord (mesh fresh) ! 1)
      \<and> assmblstiff fresh = (None, st')
      \<and> rhs_unpermuted (f initial) (mesh fresh) = Inr b
      \<and> (\<exists>M. A st' = Some M \<and> M ! 1 = [0, 1, 0, 0, 0, 0, 0, 0, 0])
      \<and> b ! 1 = 0"
proof -
  have i: "(1::nat) < length (coord (mesh fresh))" unfolding mesh_fresh by code_simp
  have bd: "on_boundary (coord (mesh fresh) ! 1)" unfolding mesh_fresh by code_simp
  from assmblstiff_fresh_returns obtain st' where st': "assmblstiff fresh = (None, st')" ..
  from rhs_initial_returns obtain b where
    b: "rhs_unpermuted (f initial) (mesh fresh) = Inr b" unfolding mesh_fresh ..
  have u: "unit_row (length (coord (mesh fresh))) 1 = [0, 1, 0, 0, 0, 0, 0, 0, 0]"
    unfolding mesh_fresh by code_simp
  from boundary_rows[OF i bd, of st' "f initial" b] st' b u i bd show ?thesis
    by auto
qed

text \<open>
  C7. The matrix that the element loop of \<open>assmblstiff\<close> builds, before the
  boundary correction, is symmetric, and so is the matrix stored when
  \<open>assmblstiff\<close> returns, after the correction; it returns on every mesh the
  program can hold.
\<close>

theorem stiffness_symmetric:
  "symmetric (snd (assemble (mesh st)))
   \<and> (assmblstiff st = (None, st') \<longrightarrow>
        (\<exists>M. A st' = Some M
            \<and> M = correct_boundary (enumerate 0 (coord (mesh st))) (snd (assemble (mesh st)))
            \<and> symmetric M))
   \<and> (reachable (mesh st) \<longrightarrow> (\<exists>st1. assmblstiff st = (None, st1)))"
proof (intro conjI impI)
  show "symmetric (snd (assemble (mesh st)))" using assemble_symmetric by blast
next
  assume "assmblstiff st = (None, st')"
  from assmblstiff_None[OF this]
  have "A st' = Some (correct_boundary (enumerate 0 (coord (mesh st)))
                        (snd (assemble (mesh st))))"
    by simp
  moreover have "symmetric (correct_boundary (enumerate 0 (coord (mesh st)))
                        (snd (assemble (mesh st))))"
    using assemble_symmetric[of "mesh st"] by (blast intro: correct_boundary_symmetric)
  ultimately show "\<exists>M. A st' = Some M
            \<and> M = correct_boundary (enumerate 0 (coord (mesh st))) (snd (assemble (mesh st)))
            \<and> symmetric M"
    by simp
next
  assume "reachable (mesh st)"
  then show "\<exists>st1. assmblstiff st = (None, st1)" using reachable_returns by blast
qed

theorem stiffness_symmetric_witness:
  "\<exists>st' M. assmblstiff fresh = (None, st') \<and> A st' = Some M \<and> symmetric M
      \<and> symmetric (snd (assemble initial))
      \<and> snd (assemble initial) ! 1 ! 4 = - 1
      \<and> snd (assemble initial) ! 4 ! 1 = - 1"
proof -
  from assmblstiff_fresh_returns obtain st' where st': "assmblstiff fresh = (None, st')" ..
  have e: "snd (assemble initial) ! 1 ! 4 = - 1" "snd (assemble initial) ! 4 ! 1 = - 1"
    by code_simp+
  from stiffness_symmetric[of fresh st'] st' e show ?thesis
    unfolding mesh_fresh by auto
qed

section \<open>Failure of the assembly\<close>

lemma area_zero_elstiff:
  assumes "area m ie = Inr 0"
  shows "elstiff m ie = Inl ZeroDivisionError"
proof -
  from assms obtain e p0 p1 p2 where
    e: "item (elem m) ie = Inr e"
    and p: "item (coord m) (enode e 0) = Inr p0" "item (coord m) (enode e 1) = Inr p1"
      "item (coord m) (enode e 2) = Inr p2"
    and a: "1/2 * ((fst p1 - fst p0) * (snd p2 - snd p0)
                   - (snd p1 - snd p0) * (fst p2 - fst p0)) = 0"
    by (auto simp: area_def Let_def split: sum.splits)
  have "(fst p0 - fst p1) * (snd p2 - snd p1) - (fst p2 - fst p1) * (snd p0 - snd p1) =
        - ((fst p1 - fst p0) * (snd p2 - snd p0) - (snd p1 - snd p0) * (fst p2 - fst p0))"
    by (simp add: algebra_simps)
  with a have "(fst p0 - fst p1) * (snd p2 - snd p1) - (fst p2 - fst p1) * (snd p0 - snd p1) = 0"
    by simp
  with e p show ?thesis by (simp add: elstiff_def Let_def)
qed

lemma assemble_elems_fails:
  "j < length es \<Longrightarrow> elstiff m (ie + j) = Inl err \<Longrightarrow>
     fst (assemble_elems m ie es M) \<noteq> None"
proof (induction es arbitrary: ie j M)
  case Nil
  then show ?case by simp
next
  case (Cons e es)
  show ?case
  proof (cases "elstiff m ie")
    case (Inl err')
    then show ?thesis by simp
  next
    case (Inr ae)
    with Cons.prems obtain j' where j': "j = Suc j'" by (cases j) auto
    with Cons.prems have "j' < length es" "elstiff m (Suc ie + j') = Inl err" by simp_all
    from Cons.IH[OF this] Inr show ?thesis by simp
  qed
qed

lemma assemble_elems_partial:
  "assemble_elems m ie es M = (Some err, M') \<Longrightarrow>
     \<exists>j<length es. elstiff m (ie + j) = Inl err
        \<and> assemble_elems m ie (take j es) M = (None, M')"
proof (induction es arbitrary: ie M)
  case Nil
  then show ?case by simp
next
  case (Cons e es)
  show ?case
  proof (cases "elstiff m ie")
    case (Inl err')
    with Cons.prems have "err' = err" "M' = M" by simp_all
    with Inl show ?thesis by (intro exI[of _ 0]) simp
  next
    case (Inr ae)
    with Cons.prems have "assemble_elems m (Suc ie) es (add_block e ae M) = (Some err, M')"
      by simp
    from Cons.IH[OF this] obtain j where "j < length es"
      "elstiff m (Suc ie + j) = Inl err"
      "assemble_elems m (Suc ie) (take j es) (add_block e ae M) = (None, M')"
      by blast
    with Inr show ?thesis by (intro exI[of _ "Suc j"]) simp
  qed
qed

lemma assmblstiff_raises:
  assumes "emax (mesh st) \<noteq> []" and "assemble (mesh st) = (Some err, M)"
  shows "assmblstiff st = (Some err, st\<lparr>A := Some M\<rparr>)"
  using assms by (simp add: assmblstiff_def)

lemma finest_elems_nth:
  assumes "j < length (finest_elems m)"
  shows "fst (last (emax m)) + j < length (elem m)"
    and "finest_elems m ! j = elem m ! (fst (last (emax m)) + j)"
proof -
  let ?s = "fst (last (emax m))" and ?e = "snd (last (emax m))"
  from assms have lt: "?s + j < ?e + 1" "?s + j < length (elem m)"
    by (simp_all add: finest_elems_def)
  show "?s + j < length (elem m)" by (rule lt(2))
  have "?s \<le> length (take (?e + 1) (elem m))" using lt by simp
  then have "drop ?s (take (?e + 1) (elem m)) ! j = take (?e + 1) (elem m) ! (?s + j)"
    by (rule nth_drop)
  also have "\<dots> = elem m ! (?s + j)" using lt(1) by (rule nth_take)
  finally show "finest_elems m ! j = elem m ! (?s + j)" by (simp add: finest_elems_def)
qed

lemma elstiff_error_kind:
  assumes "ie < length (elem m)" and "in_range (length (coord m)) (elem m ! ie)"
    and "elstiff m ie = Inl err"
  shows "err = ZeroDivisionError"
  using assms
  by (auto simp: elstiff_def area_def in_range_def Let_def split: if_splits)

text \<open>
  C3, as amended. Take a mesh whose coordinates are dyadic with short
  numerators, so that the source's float64 area and denominators are the
  model's, and whose finest level uses node indices in range. If that level
  holds an element whose computed area is zero, \<open>assmblstiff\<close> raises
  \<open>ZeroDivisionError\<close>. The mesh and the permutation arrays are as before the
  call, but the global \<open>A\<close> is not: it holds the sum of the blocks of the \<open>j\<close>
  elements processed before the one that raised, without the boundary
  correction.
\<close>

theorem assmblstiff_degenerate_aborts:
  assumes "exact_coords k (coord (mesh st))"
    and "emax (mesh st) \<noteq> []"
    and "list_all (in_range (length (coord (mesh st)))) (finest_elems (mesh st))"
    and "fst (last (emax (mesh st))) \<le> ie" and "ie \<le> snd (last (emax (mesh st)))"
    and "ie < length (elem (mesh st))"
    and "area (mesh st) ie = Inr 0"
  shows "\<exists>M j. assmblstiff st = (Some ZeroDivisionError, st\<lparr>A := Some M\<rparr>)
           \<and> j < length (finest_elems (mesh st))
           \<and> assemble_elems (mesh st) (fst (last (emax (mesh st))))
                (take j (finest_elems (mesh st))) (zeros (length (coord (mesh st)))) = (None, M)"
proof -
  let ?m = "mesh st"
  let ?s = "fst (last (emax ?m))"
  let ?Z = "zeros (length (coord ?m))"
  have pos: "ie - ?s < length (finest_elems ?m)"
    using assms(4,5,6) by (simp add: finest_elems_def)
  have "elstiff ?m (?s + (ie - ?s)) = Inl ZeroDivisionError"
    using assms(4) area_zero_elstiff[OF assms(7)] by simp
  from assemble_elems_fails[OF pos this, of ?Z]
  obtain err M where am: "assemble ?m = (Some err, M)"
    by (cases "assemble ?m") (auto simp: assemble_def)
  from assemble_elems_partial[OF am[unfolded assemble_def]] obtain j where
    j: "j < length (finest_elems ?m)" and el: "elstiff ?m (?s + j) = Inl err"
    and part: "assemble_elems ?m ?s (take j (finest_elems ?m)) ?Z = (None, M)"
    by blast
  from assms(3) j have "in_range (length (coord ?m)) (finest_elems ?m ! j)"
    by (simp add: list_all_length)
  then have "in_range (length (coord ?m)) (elem ?m ! (?s + j))"
    unfolding finest_elems_nth(2)[OF j] .
  from elstiff_error_kind[OF finest_elems_nth(1)[OF j] this el]
  have "err = ZeroDivisionError" .
  with assmblstiff_raises[OF assms(2) am] j part show ?thesis by blast
qed

lemma mesh_degenerate:
  "mesh degenerate_state =
     \<lparr>coord = [(0, 0), (1, 0), (0, 1), (2, 0)],
      elem = [(0, 1, 2), (0, 1, 3)],
      emax = [(0, 1)]\<rparr>"
  by (simp add: degenerate_state_def)

lemma assemble_degenerate:
  "assemble (mesh degenerate_state) =
     (Some ZeroDivisionError,
      [[1, - (1 / 2), - (1 / 2), 0],
       [- (1 / 2), 1 / 2, 0, 0],
       [- (1 / 2), 0, 1 / 2, 0],
       [0, 0, 0, 0]])"
  unfolding mesh_degenerate by code_simp

text \<open>
  C3 as stated fails on the example: the second element has area zero, the
  call raises \<open>ZeroDivisionError\<close>, and the global \<open>A\<close>, unset before the call,
  afterwards holds the block of the first element alone.
\<close>

theorem assmblstiff_partial_matrix_counterexample:
  "A degenerate_state = None
   \<and> assmblstiff degenerate_state =
       (Some ZeroDivisionError,
        degenerate_state\<lparr>A := Some [[1, - (1 / 2), - (1 / 2), 0],
                                     [- (1 / 2), 1 / 2, 0, 0],
                                     [- (1 / 2), 0, 1 / 2, 0],
                                     [0, 0, 0, 0]]\<rparr>)
   \<and> A (snd (assmblstiff degenerate_state)) \<noteq> A degenerate_state"
proof -
  have ne: "emax (mesh degenerate_state) \<noteq> []" by (simp add: degenerate_state_def)
  have none: "A degenerate_state = None" by (simp add: degenerate_state_def)
  from assmblstiff_raises[OF ne assemble_degenerate] none show ?thesis by simp
qed

theorem assmblstiff_degenerate_aborts_witness:
  "exact_coords 0 (coord (mesh degenerate_state))
   \<and> emax (mesh degenerate_state) \<noteq> []
   \<and> list_all (in_range (length (coord (mesh degenerate_state))))
         (finest_elems (mesh degenerate_state))
   \<and> fst (last (emax (mesh degenerate_state))) \<le> 1
   \<and> 1 \<le> snd (last (emax (mesh degenerate_state)))
   \<and> 1 < length (elem (mesh degenerate_state))
   \<and> area (mesh degenerate_state) 1 = Inr 0
   \<and> (\<exists>M j. assmblstiff degenerate_state =
                  (Some ZeroDivisionError, degenerate_state\<lparr>A := Some M\<rparr>)
         \<and> j < length (finest_elems (mesh degenerate_state))
         \<and> assemble_elems (mesh degenerate_state) (fst (last (emax (mesh degenerate_state))))
              (take j (finest_elems (mesh degenerate_state)))
              (zeros (length (coord (mesh degenerate_state)))) = (None, M))"
proof -
  have h0: "exact_coords 0 (coord (mesh degenerate_state))"
    unfolding mesh_degenerate by (simp add: exact_coords_def dyadic25_def)
  have h1: "emax (mesh degenerate_state) \<noteq> []" by (simp add: degenerate_state_def)
  have hr: "list_all (in_range (length (coord (mesh degenerate_state))))
         (finest_elems (mesh degenerate_state))"
    unfolding mesh_degenerate by (simp add: finest_elems_def in_range_def enode_def)
  have h2: "fst (last (emax (mesh degenerate_state))) \<le> 1" by (simp add: degenerate_state_def)
  have h3: "1 \<le> snd (last (emax (mesh degenerate_state)))" by (simp add: degenerate_state_def)
  have h4: "1 < length (elem (mesh degenerate_state))" by (simp add: degenerate_state_def)
  have h5: "area (mesh degenerate_state) 1 = Inr 0" unfolding mesh_degenerate by code_simp
  from assmblstiff_degenerate_aborts[OF h0 h1 hr h2 h3 h4 h5] h0 h1 hr h2 h3 h4 h5
  show ?thesis by blast
qed

section \<open>The stored permutation\<close>

lemma argsort_roundtrip:
  assumes "sort p = [0..<length p]"
  shows "roundtrip p (argsort p)"
proof -
  let ?n = "length p"
  let ?ps = "sort_key fst (zip p [0..<?n])"
  have setp: "set p = {0..<?n}" using assms by (metis set_sort set_upt)
  have len: "length ?ps = ?n" by simp
  have fsts: "set (map fst ?ps) = {0..<?n}"
  proof -
    have mz: "map fst (zip p [0..<?n]) = p" by (rule map_fst_zip) simp
    have "fst ` set (zip p [0..<?n]) = set p" by (metis mz set_map)
    then show ?thesis using setp by simp
  qed
  have fsts_upt: "set (map fst ?ps) = set [0..<?n]" using fsts by (simp only: set_upt)
  have "card (set (map fst ?ps)) = length (map fst ?ps)" using fsts by simp
  then have dist: "distinct (map fst ?ps)" by (rule card_distinct)
  have srt: "sorted (map fst ?ps)" by (rule sorted_sort_key)
  have keys: "map fst ?ps = [0..<?n]"
    by (rule sorted_distinct_set_unique[OF srt dist _ _ fsts_upt]) simp_all
  have "argsort p ! (p ! i) = i" if i: "i < ?n" for i
  proof -
    have "(p ! i, i) \<in> set (zip p [0..<?n])"
      using i by (auto simp: in_set_zip intro!: exI[of _ i])
    then have "(p ! i, i) \<in> set ?ps" by simp
    then obtain k where k: "k < ?n" "?ps ! k = (p ! i, i)"
      using len by (metis in_set_conv_nth)
    have "fst (?ps ! k) = k"
      using keys k(1) len by (metis nth_map nth_upt add_0)
    with k have "p ! i = k" by simp
    with k show ?thesis by (simp add: argsort_def)
  qed
  then show ?thesis by (simp add: roundtrip_def argsort_def)
qed

text \<open>
  C8. The two permutation globals are unset together or the stored inverse
  undoes the stored permutation, \<open>inv_perm[perm[i]] == i\<close> for every index of
  the array. That holds in a fresh state, and \<open>reorder_matrix\<close>, the only
  function that assigns them, keeps it, given that the ordering routine
  returns a permutation of \<open>0..N-1\<close>.
\<close>

theorem stored_permutation_roundtrip:
  assumes "perms_ok st" and "\<forall>M. A st = Some M \<longrightarrow> sort (rcm M) = [0..<length M]"
  shows "perms_ok fresh \<and> perms_ok (snd (reorder_matrix rcm st))"
proof
  show "perms_ok fresh" by (simp add: perms_ok_def fresh_def)
next
  show "perms_ok (snd (reorder_matrix rcm st))"
  proof (cases "A st")
    case None
    with assms(1) show ?thesis by (simp add: reorder_matrix_def)
  next
    case (Some M)
    with assms(2) have s: "sort (rcm M) = [0..<length M]" by simp
    then have "length (rcm M) = length M" by (metis length_sort length_upt diff_zero)
    with s have "roundtrip (rcm M) (argsort (rcm M))" by (intro argsort_roundtrip) simp
    with Some assms(1) show ?thesis
      by (auto simp: reorder_matrix_def Let_def perms_ok_def split: option.splits)
  qed
qed

theorem stored_permutation_roundtrip_witness:
  "perms_ok (fresh\<lparr>A := Some [[1, 0, 0], [0, 2, 0], [0, 0, 3]]\<rparr>)
   \<and> sort [2, 0, 1] = [0..<3]
   \<and> perm (snd (reorder_matrix (\<lambda>M. [2, 0, 1])
        (fresh\<lparr>A := Some [[1, 0, 0], [0, 2, 0], [0, 0, 3]]\<rparr>))) = Some [2, 0, 1]
   \<and> inv_perm (snd (reorder_matrix (\<lambda>M. [2, 0, 1])
        (fresh\<lparr>A := Some [[1, 0, 0], [0, 2, 0], [0, 0, 3]]\<rparr>))) = Some [1, 2, 0]
   \<and> perms_ok (snd (reorder_matrix (\<lambda>M. [2, 0, 1])
        (fresh\<lparr>A := Some [[1, 0, 0], [0, 2, 0], [0, 0, 3]]\<rparr>)))"
proof -
  let ?st = "fresh\<lparr>A := Some [[1, 0, 0], [0, 2, 0], [0, 0, 3]]\<rparr>"
  have ok: "perms_ok ?st" by (simp add: perms_ok_def fresh_def)
  have srt: "sort [2, 0, 1] = [0..<(3::nat)]" by code_simp
  have h: "\<forall>M. A ?st = Some M \<longrightarrow> sort ((\<lambda>M. [2, 0, 1]) M) = [0..<length M]"
  proof (intro allI impI)
    fix M :: matrix
    assume "A ?st = Some M"
    then have "length M = 3" by auto
    then show "sort ((\<lambda>M. [2, 0, 1]) M) = [0..<length M]" using srt by (simp only:)
  qed
  have "argsort [2, 0, 1] = [1, 2, 0]" by code_simp
  then have r: "reorder_matrix (\<lambda>M. [2, 0, 1]) ?st =
      (None, ?st\<lparr>perm := Some [2, 0, 1], inv_perm := Some [1, 2, 0],
                 A := Some [[3, 0, 0], [0, 1, 0], [0, 0, 2]]\<rparr>)"
    by (simp add: reorder_matrix_def permute_matrix_def Let_def)
  from stored_permutation_roundtrip[OF ok h] ok srt r show ?thesis by simp
qed

section \<open>The system of the initial mesh\<close>

lemma length_coord_initial: "length (coord initial) = 9"
  by (simp add: initial_def)

lemma boundary_initial: "i < 9 \<Longrightarrow> on_boundary (coord initial ! i) = (i \<noteq> 4)"
proof -
  assume "i < 9"
  then have "i \<in> {0, 1, 2, 3, 4, 5, 6, 7, 8}" by auto
  then show ?thesis by (auto simp: initial_def on_boundary_def)
qed

lemma assemble_initial_centre: "snd (assemble initial) ! 4 ! 4 = 4"
  by code_simp

lemma diagonal_literal:
  "map (\<lambda>i. (replicate 9 (0::rat))[i := if i = 4 then 4 else 1]) [0..<9] =
     [[1, 0, 0, 0, 0, 0, 0, 0, 0],
      [0, 1, 0, 0, 0, 0, 0, 0, 0],
      [0, 0, 1, 0, 0, 0, 0, 0, 0],
      [0, 0, 0, 1, 0, 0, 0, 0, 0],
      [0, 0, 0, 0, 4, 0, 0, 0, 0],
      [0, 0, 0, 0, 0, 1, 0, 0, 0],
      [0, 0, 0, 0, 0, 0, 1, 0, 0],
      [0, 0, 0, 0, 0, 0, 0, 1, 0],
      [0, 0, 0, 0, 0, 0, 0, 0, 1]]"
  by code_simp

lemma corrected_initial_nth:
  assumes "i < 9" and "j < 9"
  shows "correct_boundary (enumerate 0 (coord initial)) (snd (assemble initial)) ! i ! j =
           (if i = j then (if i = 4 then 4 else 1) else 0)"
proof -
  have sq: "square 9 (snd (assemble initial))"
    using assemble_symmetric[of initial] by (simp add: length_coord_initial)
  show ?thesis
    unfolding correct_boundary_nth[OF sq assms] boundary_enumerate length_coord_initial
    using assms assemble_initial_centre by (auto simp: boundary_initial)
qed

lemma corrected_initial:
  "correct_boundary (enumerate 0 (coord initial)) (snd (assemble initial)) =
     [[1, 0, 0, 0, 0, 0, 0, 0, 0],
      [0, 1, 0, 0, 0, 0, 0, 0, 0],
      [0, 0, 1, 0, 0, 0, 0, 0, 0],
      [0, 0, 0, 1, 0, 0, 0, 0, 0],
      [0, 0, 0, 0, 4, 0, 0, 0, 0],
      [0, 0, 0, 0, 0, 1, 0, 0, 0],
      [0, 0, 0, 0, 0, 0, 1, 0, 0],
      [0, 0, 0, 0, 0, 0, 0, 1, 0],
      [0, 0, 0, 0, 0, 0, 0, 0, 1]]"
proof -
  let ?M = "correct_boundary (enumerate 0 (coord initial)) (snd (assemble initial))"
  have sq0: "square 9 (snd (assemble initial))"
    using assemble_symmetric[of initial] by (simp add: length_coord_initial)
  then have sq: "square 9 ?M" by (rule correct_boundary_square)
  have "?M = map (\<lambda>i. (replicate 9 (0::rat))[i := if i = 4 then 4 else 1]) [0..<9]"
  proof (rule nth_equalityI)
    show "length ?M = length (map (\<lambda>i. (replicate 9 (0::rat))[i := if i = 4 then 4 else 1]) [0..<9])"
      using sq by (simp add: square_def)
  next
    fix i assume "i < length ?M"
    then have i: "i < 9" using sq by (simp add: square_def)
    have "?M ! i = (replicate 9 (0::rat))[i := if i = 4 then 4 else 1]"
    proof (rule nth_equalityI)
      show "length (?M ! i) = length ((replicate 9 (0::rat))[i := if i = 4 then 4 else 1])"
        using square_nth[OF sq i] by simp
    next
      fix j assume "j < length (?M ! i)"
      then have j: "j < 9" using square_nth[OF sq i] by simp
      show "?M ! i ! j = (replicate 9 (0::rat))[i := if i = 4 then 4 else 1] ! j"
        unfolding corrected_initial_nth[OF i j] using i j by (auto simp: nth_list_update)
    qed
    then show "?M ! i = map (\<lambda>i. (replicate 9 (0::rat))[i := if i = 4 then 4 else 1]) [0..<9] ! i"
      using i by (simp del: upt_Suc replicate.simps)
  qed
  then show ?thesis unfolding diagonal_literal .
qed

text \<open>\<open>assmblstiff\<close> on the initial mesh, whatever the other globals hold.\<close>

lemma assmblstiff_initial:
  assumes "mesh st = initial"
  shows "assmblstiff st =
    (None, st\<lparr>A := Some [[1, 0, 0, 0, 0, 0, 0, 0, 0],
                         [0, 1, 0, 0, 0, 0, 0, 0, 0],
                         [0, 0, 1, 0, 0, 0, 0, 0, 0],
                         [0, 0, 0, 1, 0, 0, 0, 0, 0],
                         [0, 0, 0, 0, 4, 0, 0, 0, 0],
                         [0, 0, 0, 0, 0, 1, 0, 0, 0],
                         [0, 0, 0, 0, 0, 0, 1, 0, 0],
                         [0, 0, 0, 0, 0, 0, 0, 1, 0],
                         [0, 0, 0, 0, 0, 0, 0, 0, 1]]\<rparr>)"
proof -
  have "emax (mesh st) \<noteq> []" using assms by (simp add: initial_def)
  moreover have "fst (assemble (mesh st)) = None"
    unfolding assms by (rule assemble_initial_returns)
  ultimately show ?thesis
    using assmblstiff_returns[of st] unfolding assms corrected_initial by simp
qed

lemma rhs_initial:
  "rhs_unpermuted (f initial) initial = Inr [0, 0, 0, 0, - (3 / 4), 0, 0, 0, 0]"
proof -
  from rhs_initial_returns obtain b where b: "rhs_unpermuted (f initial) initial = Inr b" ..
  have "(case rhs_unpermuted (f initial) initial of
           Inr b \<Rightarrow> list_all (\<lambda>i. b ! i = (if i = 4 then - (3/4) else 0)) [0..<9]
                    \<and> length b = 9
         | Inl e \<Rightarrow> False)"
    by code_simp
  with b have ent: "list_all (\<lambda>i. b ! i = (if i = 4 then - (3/4) else 0)) [0..<9]"
    and len: "length b = 9" by simp_all
  have "b = [0, 0, 0, 0, - (3 / 4), 0, 0, 0, 0]"
  proof (rule nth_equalityI)
    show "length b = length [0, 0, 0, 0, - (3 / 4), 0, 0, 0, 0 :: rat]" using len by simp
  next
    fix i assume "i < length b"
    then have "i \<in> {0, 1, 2, 3, 4, 5, 6, 7, 8}" using len by auto
    with ent show "b ! i = [0, 0, 0, 0, - (3 / 4), 0, 0, 0, 0] ! i"
      by (auto simp: list_all_iff)
  qed
  with b show ?thesis by simp
qed

section \<open>Permutations and the permuted system\<close>

lemma sort_upt_facts:
  assumes "sort p = [0..<n]"
  shows "length p = n" and "set p = {0..<n}" and "distinct p"
proof -
  show "length p = n" using assms by (metis length_sort length_upt diff_zero)
  show "set p = {0..<n}" using assms by (metis set_sort set_upt)
  show "distinct p" using assms by (metis distinct_sort distinct_upt)
qed

lemma argsort_inverse:
  assumes "sort p = [0..<n]" and "k < n"
  shows "argsort p ! k < n \<and> p ! (argsort p ! k) = k"
proof -
  note f = sort_upt_facts[OF assms(1)]
  from assms(2) f(2) have "k \<in> set p" by simp
  then obtain i where i: "i < length p" "p ! i = k" by (auto simp: in_set_conv_nth)
  have "roundtrip p (argsort p)" using assms(1) f(1) by (intro argsort_roundtrip) simp
  with i have "argsort p ! k = i" by (auto simp: roundtrip_def)
  with i f(1) show ?thesis by simp
qed

lemma length_argsort: "length (argsort p) = length p"
  by (simp add: argsort_def)

lemma diag_row_sum:
  fixes c :: rat
  assumes "distinct p" and "length x = length p" and "i < length p"
  shows "sum_list (map2 (*) (map (\<lambda>j. if p ! i = j then c else 0) p) x) = c * x ! i"
proof -
  let ?r = "map2 (*) (map (\<lambda>j. if p ! i = j then c else 0) p) x"
  have len: "length ?r = length p" using assms(2) by simp
  have ent: "?r ! k = (if k = i then c * x ! i else 0)" if "k < length p" for k
    using that assms by (auto simp: nth_eq_iff_index_eq)
  have "sum_list ?r = (\<Sum>k = 0..<length p. ?r ! k)"
    unfolding sum_list_sum_nth len ..
  also have "\<dots> = (\<Sum>k = 0..<length p. if k = i then c * x ! i else 0)"
    by (rule sum.cong) (simp_all add: ent)
  also have "\<dots> = c * x ! i" using assms(3) by simp
  finally show ?thesis .
qed

lemma permute_matrix_nth:
  "i < length p \<Longrightarrow> j < length p \<Longrightarrow> permute_matrix M p ! i ! j = M ! (p ! i) ! (p ! j)"
  by (simp add: permute_matrix_def)

lemma refine_zero: "refine 0 m = Inr m"
  by (simp add: refine_def)

lemma rhs_literal_nth:
  "k < 9 \<Longrightarrow> [0, 0, 0, 0, - (3 / 4), 0, 0, 0, 0 :: rat] ! k = (if k = 4 then - (3 / 4) else 0)"
proof -
  assume "k < 9"
  then have "k \<in> {0, 1, 2, 3, 4, 5, 6, 7, 8}" by auto
  then show ?thesis by auto
qed

lemma solution_literal:
  "map (\<lambda>k. if k = 4 then - (3 / 16) else (0::rat)) [0..<9] =
     [0, 0, 0, 0, - (3 / 16), 0, 0, 0, 0]"
  by code_simp

text \<open>
  The last cell with no refinement, for any ordering \<open>rcm\<close> that returns a
  permutation moving the centre node and any \<open>spsolve\<close> whose result solves
  the permuted system.
\<close>

lemma all_in_one_initial:
  assumes asm: "assmblstiff (st\<lparr>mesh := initial\<rparr>) = (None, st1)" and M: "A st1 = Some M"
    and p: "sort (rcm M) = [0..<9]" and mv: "rcm M ! 4 \<noteq> 4"
    and b: "rhs_unpermuted (f initial) initial = Inr b"
    and xl: "length (spsolve (permute_matrix M (rcm M)) (map ((!) b) (rcm M))) = 9"
    and xs: "mat_vec (permute_matrix M (rcm M))
               (spsolve (permute_matrix M (rcm M)) (map ((!) b) (rcm M)))
             = map ((!) b) (rcm M)"
  shows "all_in_one rcm spsolve 0 st = Inr [0, 0, 0, 0, - (3 / 16), 0, 0, 0, 0]"
proof -
  let ?p = "rcm M"
  let ?q = "argsort ?p"
  let ?M' = "permute_matrix M ?p"
  let ?b' = "map ((!) b) ?p"
  let ?x = "spsolve ?M' ?b'"
  let ?d = "\<lambda>k::nat. if k = 4 then 4 else (1::rat)"
  note pf = sort_upt_facts[OF p]
  have st1: "st1 = st\<lparr>mesh := initial,
      A := Some (correct_boundary (enumerate 0 (coord initial)) (snd (assemble initial)))\<rparr>"
    using asm assmblstiff_initial[of "st\<lparr>mesh := initial\<rparr>"]
    by (simp add: corrected_initial)
  then have Meq: "M = correct_boundary (enumerate 0 (coord initial)) (snd (assemble initial))"
    using M by simp
  have Mn: "M ! i ! j = (if i = j then ?d i else 0)" if "i < 9" "j < 9" for i j
    unfolding Meq corrected_initial_nth[OF that] by simp
  have lenM: "length M = 9" unfolding Meq corrected_initial by simp
  have bl: "b = [0, 0, 0, 0, - (3 / 4), 0, 0, 0, 0]" using b rhs_initial by simp
  have pl: "?p ! i < 9" if "i < 9" for i
    using that pf(1,2) by (metis atLeastLessThan_iff nth_mem)
  have inrange: "list_all (\<lambda>i. i < 9) ?p" using pf(2) by (simp add: list_all_iff)
  have "?M' ! 4 ! 4 = 1"
    using pf(1) mv pl[of 4] by (simp add: permute_matrix_nth Mn)
  moreover have "M ! 4 ! 4 = 4" by (simp add: Mn)
  ultimately have ne: "M \<noteq> ?M'" by auto
  let ?st2 = "st1\<lparr>perm := Some ?p, inv_perm := Some ?q, A := Some ?M'\<rparr>"
  have re: "reorder_matrix rcm st1 = (None, ?st2)"
    using M inrange ne by (simp add: reorder_matrix_def Let_def lenM)
  have m1: "mesh st1 = initial" using st1 by simp
  have lb: "length b = 9" unfolding bl by simp
  have ti: "take_indices b ?p = Inr ?b'"
    unfolding take_indices_def lb using inrange by simp
  have rh: "rhs (f (mesh ?st2)) ?st2 = Inr ?b'"
    using b ti by (simp add: rhs_def m1)
  have ql: "list_all (\<lambda>i. i < length ?x) ?q"
    unfolding xl list_all_length length_argsort pf(1)
    using argsort_inverse[OF p] by simp
  have so: "solve spsolve ?b' ?st2 = Inr (map ((!) ?x) ?q)"
    using ql by (simp add: solve_def take_indices_def Let_def)
  have xi: "?x ! i = (if ?p ! i = 4 then - (3 / 16) else 0)" if i: "i < 9" for i
  proof -
    have row: "?M' ! i = map (\<lambda>j. if ?p ! i = j then ?d (?p ! i) else 0) ?p"
      using i pf(1) pf(2) pl[OF i] by (auto simp: permute_matrix_def Mn)
    have "mat_vec ?M' ?x ! i = sum_list (map2 (*) (?M' ! i) ?x)"
      using i pf(1) by (simp add: mat_vec_def permute_matrix_def)
    also have "\<dots> = ?d (?p ! i) * ?x ! i"
      unfolding row using pf(1,3) xl i by (intro diag_row_sum) simp_all
    finally have "?d (?p ! i) * ?x ! i = ?b' ! i" using xs by simp
    also have "?b' ! i = (if ?p ! i = 4 then - (3 / 4) else 0)"
      using i pf(1) pl[OF i] by (simp add: bl rhs_literal_nth)
    finally show ?thesis by (auto split: if_splits)
  qed
  have "map ((!) ?x) ?q = map (\<lambda>k. if k = 4 then - (3 / 16) else (0::rat)) [0..<9]"
  proof (rule nth_equalityI)
    show "length (map ((!) ?x) ?q) = length (map (\<lambda>k. if k = 4 then - (3 / 16) else (0::rat)) [0..<9])"
      by (simp add: length_argsort pf(1))
  next
    fix k assume "k < length (map ((!) ?x) ?q)"
    then have k: "k < 9" by (simp add: length_argsort pf(1))
    from argsort_inverse[OF p k] have "?q ! k < 9" "?p ! (?q ! k) = k" by simp_all
    with xi[of "?q ! k"] k
    show "map ((!) ?x) ?q ! k = map (\<lambda>k. if k = 4 then - (3 / 16) else (0::rat)) [0..<9] ! k"
      by (simp add: length_argsort pf(1) del: upt_Suc)
  qed
  then have u: "map ((!) ?x) ?q = [0, 0, 0, 0, - (3 / 16), 0, 0, 0, 0]"
    unfolding solution_literal .
  show ?thesis
    unfolding all_in_one_def refine_zero
    using asm re rh so u by simp
qed

section \<open>The scenario on the initial mesh\<close>

lemma assmblstiff_fresh: "assmblstiff fresh = (None, fresh\<lparr>A := Some initial_matrix\<rparr>)"
  using assmblstiff_initial[OF mesh_fresh] by (simp add: initial_matrix_def)

lemma initial_matrix_nth:
  "i < 9 \<Longrightarrow> j < 9 \<Longrightarrow>
     initial_matrix ! i ! j = (if i = j then (if i = 4 then 4 else 1) else 0)"
  unfolding initial_matrix_def corrected_initial[symmetric] by (rule corrected_initial_nth)

lemma square_initial_matrix: "square 9 initial_matrix"
  by (simp add: square_def initial_matrix_def)

text \<open>
  An ordering that is a permutation of the nine nodes and keeps the centre
  node in place maps the matrix of the initial mesh to itself.
\<close>

lemma permute_fixed_centre:
  assumes "sort p = [0..<9]" and "p ! 4 = 4"
  shows "permute_matrix initial_matrix p = initial_matrix"
proof -
  note pf = sort_upt_facts[OF assms(1)]
  have pl: "p ! i < 9" if "i < 9" for i
    using that pf(1,2) by (metis atLeastLessThan_iff nth_mem)
  have c: "(p ! i = 4) = (i = 4)" if "i < 9" for i
    using nth_eq_iff_index_eq[OF pf(3), of i 4] that pf(1) assms(2) by simp
  have eq: "(p ! i = p ! j) = (i = j)" if "i < 9" "j < 9" for i j
    using nth_eq_iff_index_eq[OF pf(3), of i j] that pf(1) by simp
  show ?thesis
  proof (rule nth_equalityI)
    show "length (permute_matrix initial_matrix p) = length initial_matrix"
      using pf(1) square_initial_matrix by (simp add: permute_matrix_def square_def)
  next
    fix i assume "i < length (permute_matrix initial_matrix p)"
    then have i: "i < 9" using pf(1) by (simp add: permute_matrix_def)
    show "permute_matrix initial_matrix p ! i = initial_matrix ! i"
    proof (rule nth_equalityI)
      show "length (permute_matrix initial_matrix p ! i) = length (initial_matrix ! i)"
        using i pf(1) square_nth[OF square_initial_matrix i] by (simp add: permute_matrix_def)
    next
      fix j assume "j < length (permute_matrix initial_matrix p ! i)"
      then have j: "j < 9" using i pf(1) by (simp add: permute_matrix_def)
      have "permute_matrix initial_matrix p ! i ! j = initial_matrix ! (p ! i) ! (p ! j)"
        using i j pf(1) by (simp add: permute_matrix_nth)
      also have "\<dots> = (if p ! i = p ! j then (if p ! i = 4 then 4 else 1) else 0)"
        by (rule initial_matrix_nth[OF pl[OF i] pl[OF j]])
      also have "\<dots> = (if i = j then (if i = 4 then 4 else 1) else 0)"
        by (simp only: eq[OF i j] c[OF i])
      also have "\<dots> = initial_matrix ! i ! j"
        by (rule initial_matrix_nth[OF i j, symmetric])
      finally show "permute_matrix initial_matrix p ! i ! j = initial_matrix ! i ! j" .
    qed
  qed
qed

text \<open>The skipped branch of \<open>reorder_matrix\<close> changes no global.\<close>

lemma reorder_matrix_skip:
  assumes "A st = Some M" and "list_all (\<lambda>i. i < length M) (rcm M)"
    and "permute_matrix M (rcm M) = M"
  shows "reorder_matrix rcm st = (None, st)"
  using assms by (simp add: reorder_matrix_def Let_def)

lemma rhs_perm_unset:
  assumes "perm st = None" and "rhs_unpermuted fv (mesh st) = Inr b"
  shows "rhs fv st = Inl NameError"
  using assms by (simp add: rhs_def)

text \<open>
  For every ordering that is a permutation and keeps the centre node in
  place, the last cell without refinement, run in a fresh interpreter, raises
  \<open>NameError\<close>: \<open>reorder_matrix\<close> returns through its skipped branch and \<open>rhs\<close>
  reads \<open>perm\<close>, which nothing has assigned. (\<open>all_in_one_initial\<close> is the other
  case: an ordering that moves the centre node.)
\<close>

lemma all_in_one_fixed_centre:
  assumes "sort (rcm initial_matrix) = [0..<9]" and "rcm initial_matrix ! 4 = 4"
  shows "all_in_one rcm spsolve 0 fresh = Inl NameError"
proof -
  have f0: "fresh\<lparr>mesh := initial\<rparr> = fresh" by (simp add: fresh_def)
  have la: "list_all (\<lambda>i. i < length initial_matrix) (rcm initial_matrix)"
    using sort_upt_facts(2)[OF assms(1)] square_initial_matrix
    by (simp add: list_all_iff square_def)
  have re: "reorder_matrix rcm (fresh\<lparr>A := Some initial_matrix\<rparr>) =
      (None, fresh\<lparr>A := Some initial_matrix\<rparr>)"
    by (rule reorder_matrix_skip[where rcm = rcm and M = initial_matrix,
          OF _ la permute_fixed_centre[OF assms]]) simp
  have rh: "rhs (f initial) (fresh\<lparr>A := Some initial_matrix\<rparr>) = Inl NameError"
    by (rule rhs_perm_unset[of _ _ "[0, 0, 0, 0, - (3 / 4), 0, 0, 0, 0]"])
       (simp_all add: fresh_def rhs_initial)
  have m: "mesh (fresh\<lparr>A := Some initial_matrix\<rparr>) = initial" by (simp add: fresh_def)
  have a0: "assmblstiff (fresh\<lparr>mesh := initial\<rparr>) = (None, fresh\<lparr>A := Some initial_matrix\<rparr>)"
    unfolding f0 by (rule assmblstiff_fresh)
  show ?thesis
    using a0 re rh m by (simp add: all_in_one_def refine_zero)
qed

lemma rcm_on_initial_facts:
  shows "sort (rcm_on_initial initial_matrix) = [0..<9]"
    and "rcm_on_initial initial_matrix ! 4 = 4"
proof -
  show "sort (rcm_on_initial initial_matrix) = [0..<9]" by code_simp
  show "rcm_on_initial initial_matrix ! 4 = 4" by (simp add: rcm_on_initial_def)
qed

text \<open>
  C1. The code at the input where it departs from the claim: a fresh
  interpreter, \<open>initial()\<close>, \<open>assmblstiff()\<close>, \<open>reorder_matrix()\<close>. The ordering
  computed for the stored matrix maps the matrix, and so its nonzero pattern,
  to itself; \<open>reorder_matrix\<close> returns through the skipped branch, which
  assigns neither \<open>perm\<close> nor \<open>inv_perm\<close>: both are still unset, no identity
  permutation has been stored, and the following \<open>rhs\<close> raises \<open>NameError\<close> at
  \<open>b[perm]\<close>.
\<close>

theorem reorder_skip_leaves_perm_unset:
  "assmblstiff fresh = (None, fresh\<lparr>A := Some initial_matrix\<rparr>)
   \<and> permute_matrix initial_matrix (rcm_on_initial initial_matrix) = initial_matrix
   \<and> pattern (permute_matrix initial_matrix (rcm_on_initial initial_matrix))
       = pattern initial_matrix
   \<and> reorder_matrix rcm_on_initial (fresh\<lparr>A := Some initial_matrix\<rparr>)
       = (None, fresh\<lparr>A := Some initial_matrix\<rparr>)
   \<and> perm (fresh\<lparr>A := Some initial_matrix\<rparr>) = None
   \<and> inv_perm (fresh\<lparr>A := Some initial_matrix\<rparr>) = None
   \<and> rhs (f initial) (fresh\<lparr>A := Some initial_matrix\<rparr>) = Inl NameError"
proof -
  have pm: "permute_matrix initial_matrix (rcm_on_initial initial_matrix) = initial_matrix"
    by (rule permute_fixed_centre[OF rcm_on_initial_facts])
  have la: "list_all (\<lambda>i. i < length initial_matrix) (rcm_on_initial initial_matrix)"
    by (simp add: rcm_on_initial_def initial_matrix_def)
  have re: "reorder_matrix rcm_on_initial (fresh\<lparr>A := Some initial_matrix\<rparr>)
       = (None, fresh\<lparr>A := Some initial_matrix\<rparr>)"
    by (rule reorder_matrix_skip[where rcm = rcm_on_initial and M = initial_matrix,
          OF _ la pm]) simp
  have un: "perm (fresh\<lparr>A := Some initial_matrix\<rparr>) = None"
    "inv_perm (fresh\<lparr>A := Some initial_matrix\<rparr>) = None"
    by (simp_all add: fresh_def)
  have rh: "rhs (f initial) (fresh\<lparr>A := Some initial_matrix\<rparr>) = Inl NameError"
    by (rule rhs_perm_unset[of _ _ "[0, 0, 0, 0, - (3 / 4), 0, 0, 0, 0]"])
       (simp_all add: fresh_def rhs_initial)
  from assmblstiff_fresh pm re un rh show ?thesis by simp
qed

text \<open>
  C2. The code on the scenario of the claim: a fresh interpreter, the initial
  mesh refined 0 times, assembled, reordered, and solved with \<open>f = -1\<close>. For
  every \<open>spsolve\<close> the run raises \<open>NameError\<close> in \<open>rhs\<close>, before the solver is
  called: no node solves to any value.
\<close>

theorem initial_scenario_raises:
  "all_in_one rcm_on_initial spsolve 0 fresh = Inl NameError"
  by (rule all_in_one_fixed_centre[where rcm = rcm_on_initial, OF rcm_on_initial_facts])

end
